theory Spec2Isabelle
  imports Complex_Main "HOL-Library.Multiset" "HOL-Library.Char_ord" "HOL-Library.List_Lexorder"
begin

section \<open>JavaScript values\<close>

text \<open>
  The values the SDK passes around: request parameters, parsed JSON responses and the
  results of property reads. Numbers are modelled as integers (timestamps, status codes,
  counters); \<open>JUndefined\<close> is what reading an absent property yields. An object is the list
  of its own enumerable properties in enumeration order, with pairwise different keys.
  Strings are lists of code units, ordered lexicographically, which is the order of
  \<open>Array.prototype.sort()\<close> without a comparator.
\<close>

datatype jsval =
    JUndefined
  | JNull
  | JBool bool
  | JNum int
  | JStr string
  | JArr "jsval list"
  | JObj "(string \<times> jsval) list"

type_synonym jsobject = "(string \<times> jsval) list"

text \<open>\<open>ToBoolean\<close>: what \<open>if (v)\<close> and \<open>!v\<close> test.\<close>

fun truthy :: "jsval \<Rightarrow> bool" where
  "truthy JUndefined = False"
| "truthy JNull = False"
| "truthy (JBool b) = b"
| "truthy (JNum n) = (n \<noteq> 0)"
| "truthy (JStr s) = (s \<noteq> [])"
| "truthy (JArr _) = True"
| "truthy (JObj _) = True"

text \<open>\<open>obj[key]\<close> on an object given by its property list.\<close>

definition get_prop :: "jsobject \<Rightarrow> string \<Rightarrow> jsval" where
  "get_prop obj key = (case map_of obj key of None \<Rightarrow> JUndefined | Some v \<Rightarrow> v)"

text \<open>\<open>obj[key] = v\<close>: an existing property keeps its place, a new one goes last.\<close>

fun set_prop :: "jsobject \<Rightarrow> string \<Rightarrow> jsval \<Rightarrow> jsobject" where
  "set_prop [] key v = [(key, v)]"
| "set_prop ((k, w) # rest) key v =
     (if k = key then (k, v) # rest else (k, w) # set_prop rest key v)"

text \<open>\<open>delete obj[key]\<close>.\<close>

definition delete_prop :: "jsobject \<Rightarrow> string \<Rightarrow> jsobject" where
  "delete_prop obj key = filter (\<lambda>kv. fst kv \<noteq> key) obj"

definition Object_keys :: "jsobject \<Rightarrow> string list" where
  "Object_keys obj = map fst obj"

text \<open>Decimal rendering of an integer, as \<open>String(n)\<close> gives it.\<close>

definition digit_char :: "nat \<Rightarrow> char" where
  "digit_char d = ''0123456789'' ! d"

fun nat_to_string :: "nat \<Rightarrow> string" where
  "nat_to_string n =
     (if n < 10 then [digit_char n]
      else nat_to_string (n div 10) @ [digit_char (n mod 10)])"

definition int_to_string :: "int \<Rightarrow> string" where
  "int_to_string i = (if i < 0 then CHR ''-'' # nat_to_string (nat (- i)) else nat_to_string (nat i))"

fun join_with :: "string \<Rightarrow> string list \<Rightarrow> string" where
  "join_with sep [] = []"
| "join_with sep [s] = s"
| "join_with sep (s # t # rest) = s @ sep @ join_with sep (t # rest)"

text \<open>
  \<open>ToString\<close>, as a template literal \<open>`${v}`\<close> applies it. A number, an integer
  here, is written in decimal, which is how JavaScript writes the integers below \<open>10^21\<close>.
\<close>

fun js_to_string :: "jsval \<Rightarrow> string" where
  "js_to_string JUndefined = ''undefined''"
| "js_to_string JNull = ''null''"
| "js_to_string (JBool b) = (if b then ''true'' else ''false'')"
| "js_to_string (JNum n) = int_to_string n"
| "js_to_string (JStr s) = s"
| "js_to_string (JArr xs) =
     join_with '','' (map (\<lambda>x. if x = JUndefined \<or> x = JNull then [] else js_to_string x) xs)"
| "js_to_string (JObj _) = ''[object Object]''"

section \<open>Signer (src/core/signature.js)\<close>

text \<open>
  \<open>crypto.createHmac('sha256', secret).update(m).digest('hex')\<close> belongs to the Node
  runtime, not to the SDK: it is the parameter \<open>hmac\<close> (secret first, message second,
  lowercase hex digest as result) of every function that signs.
\<close>

type_synonym hmac_fn = "string \<Rightarrow> string \<Rightarrow> string"

text \<open>
  The \<open>forEach\<close> over the sorted keys: the callback receives the key and its index and
  appends to \<open>signatureBase\<close>.
\<close>

fun signatureBase_loop :: "jsobject \<Rightarrow> nat \<Rightarrow> string list \<Rightarrow> string \<Rightarrow> string" where
  "signatureBase_loop data index [] signatureBase = signatureBase"
| "signatureBase_loop data index (key # keys) signatureBase =
     signatureBase_loop data (Suc index) keys
       ((if index > 0 then signatureBase @ ''&'' else signatureBase)
          @ key @ ''='' @ js_to_string (get_prop data key))"

definition calculateSignature :: "hmac_fn \<Rightarrow> jsobject \<Rightarrow> string \<Rightarrow> string" where
  "calculateSignature hmac data secret =
     (let sortedKeys = sort (Object_keys data);
          signatureBase = signatureBase_loop data 0 sortedKeys []
      in hmac secret signatureBase)"

text \<open>
  The canonical string in the specification's words: keys sorted, each rendered as
  \<open>k=v\<close>, joined by \<open>&\<close> with no trailing separator.
\<close>

definition canonical_string :: "jsobject \<Rightarrow> string" where
  "canonical_string data =
     join_with ''&'' (map (\<lambda>k. k @ ''='' @ js_to_string (get_prop data k)) (sort (map fst data)))"

text \<open>The three values \<open>prepareSignedPayload\<close> strips.\<close>

definition is_stripped :: "jsval \<Rightarrow> bool" where
  "is_stripped v = (v = JUndefined \<or> v = JNull \<or> v = JStr [])"

text \<open>
  \<open>prepareSignedPayload(customParams, apiKey, apiSecret)\<close>; \<open>now\<close> is the value of
  \<open>new Date().getTime()\<close> at the call.
\<close>

definition prepareSignedPayload ::
  "hmac_fn \<Rightarrow> int \<Rightarrow> jsobject \<Rightarrow> jsval \<Rightarrow> string \<Rightarrow> jsobject" where
  "prepareSignedPayload hmac now customParams apiKey apiSecret =
     (let payload0 = customParams;
          payload1 = (if \<not> truthy (get_prop payload0 ''timestamp'')
                      then set_prop payload0 ''timestamp'' (JNum now) else payload0);
          payload2 = (if \<not> truthy (get_prop payload1 ''apiKey'')
                      then set_prop payload1 ''apiKey'' apiKey else payload1);
          payload3 = fold (\<lambda>key p. if is_stripped (get_prop p key) then delete_prop p key else p)
                       (Object_keys payload2) payload2
      in set_prop payload3 ''sign'' (JStr (calculateSignature hmac payload3 apiSecret)))"

definition verifySignature :: "hmac_fn \<Rightarrow> jsobject \<Rightarrow> string \<Rightarrow> bool" where
  "verifySignature hmac payload secret =
     (if \<not> truthy (get_prop payload ''sign'') then False
      else
        let receivedSignature = get_prop payload ''sign'';
            payloadWithoutSignature = delete_prop payload ''sign'';
            calculatedSignature = calculateSignature hmac payloadWithoutSignature secret
        in receivedSignature = JStr calculatedSignature)"

text \<open>
  The payload as it stands when \<open>calculateSignature\<close> is called inside
  \<open>prepareSignedPayload\<close>: defaults filled in, stripped values removed, nothing signed yet.
\<close>

definition unsigned_payload :: "int \<Rightarrow> jsobject \<Rightarrow> jsval \<Rightarrow> jsobject" where
  "unsigned_payload now customParams apiKey =
     (let payload1 = (if \<not> truthy (get_prop customParams ''timestamp'')
                      then set_prop customParams ''timestamp'' (JNum now) else customParams);
          payload2 = (if \<not> truthy (get_prop payload1 ''apiKey'')
                      then set_prop payload1 ''apiKey'' apiKey else payload1)
      in filter (\<lambda>kv. \<not> is_stripped (snd kv)) payload2)"

text \<open>A stand-in digest for evaluating the signer on concrete inputs.\<close>

definition toy_hmac :: hmac_fn where
  "toy_hmac secret message = secret @ ''/'' @ message"

section \<open>ResponseCipher (src/core/decryption.js)\<close>

text \<open>What a \<open>throw\<close> carries: the kind of the error and its message.\<close>

datatype js_error =
    Error string
  | TypeError string
  | SyntaxError string
  | URIError string

fun message :: "js_error \<Rightarrow> string" where
  "message (Error m) = m"
| "message (TypeError m) = m"
| "message (SyntaxError m) = m"
| "message (URIError m) = m"

type_synonym byte = nat

text \<open>
  The functions of JSEncrypt, CryptoJS and the runtime that the module calls, with the
  key material of \<open>DECRYPTION_CONFIG\<close> already applied:
  \<^item> \<open>rsa_decrypt\<close>: \<open>jsEncrypt.decrypt(s)\<close>, \<open>None\<close> when it returns \<open>false\<close> or \<open>null\<close>;
  \<^item> \<open>base64_decode\<close>: \<open>Buffer.from(s, 'base64')\<close>; \<open>base64_encode\<close>: \<open>buf.toString('base64')\<close>;
  \<^item> \<open>decodeURIComponent\<close> and \<open>JSON_parse\<close>, which throw on malformed input;
  \<^item> \<open>aes_decrypt\<close>: \<open>CryptoJS.AES.decrypt(s, key).toString(CryptoJS.enc.Utf8)\<close>;
  \<^item> \<open>aes_decrypt_raw\<close>: the same on \<open>{ciphertext: CryptoJS.enc.Base64.parse(s)}\<close>.
\<close>

record crypto_lib =
  rsa_decrypt :: "string \<Rightarrow> string option"
  base64_decode :: "string \<Rightarrow> byte list"
  base64_encode :: "byte list \<Rightarrow> string"
  decodeURIComponent :: "string \<Rightarrow> js_error + string"
  JSON_parse :: "string \<Rightarrow> js_error + jsval"
  aes_decrypt :: "string \<Rightarrow> js_error + string"
  aes_decrypt_raw :: "string \<Rightarrow> js_error + string"

text \<open>\<open>rawData.slice(i, j)\<close> for \<open>i \<le> j\<close>.\<close>

definition slice :: "'a list \<Rightarrow> nat \<Rightarrow> nat \<Rightarrow> 'a list" where
  "slice xs i j = take (j - i) (drop i xs)"

text \<open>
  The first loop of the chunked path:
  \<open>for (let i = 0; i < rawData.length; i += chunkSize) chunks.push(rawData.slice(i, i + chunkSize).toString('base64'))\<close>
  with \<open>chunkSize = 128\<close>.
\<close>

function split_loop :: "crypto_lib \<Rightarrow> byte list \<Rightarrow> nat \<Rightarrow> string list \<Rightarrow> string list" where
  "split_loop lib rawData i chunks =
     (if i < length rawData
      then split_loop lib rawData (i + 128) (chunks @ [base64_encode lib (slice rawData i (i + 128))])
      else chunks)"
  by pat_completeness auto
termination
  by (relation "measure (\<lambda>(lib, rawData, i, chunks). length rawData - i)") auto

declare split_loop.simps [simp del]

text \<open>
  Splitting into blocks in the specification's words: the first \<open>n\<close> bytes, then the
  blocks of the rest.
\<close>

fun blocks_of :: "nat \<Rightarrow> 'a list \<Rightarrow> 'a list list" where
  "blocks_of n xs = (if n = 0 \<or> xs = [] then [] else take n xs # blocks_of n (drop n xs))"

declare blocks_of.simps [simp del]

text \<open>
  The second loop: each chunk is decrypted on its own; the first chunk that does not
  decrypt throws \<open>Chunk n decryption failed\<close>.
\<close>

fun decrypt_loop :: "crypto_lib \<Rightarrow> nat \<Rightarrow> string list \<Rightarrow> string list \<Rightarrow> js_error + string list" where
  "decrypt_loop lib i [] decryptedChunks = Inr decryptedChunks"
| "decrypt_loop lib i (chunk # chunks) decryptedChunks =
     (case rsa_decrypt lib chunk of
        None \<Rightarrow> Inl (Error (''Chunk '' @ nat_to_string (i + 1) @ '' decryption failed''))
      | Some decryptedChunk \<Rightarrow> decrypt_loop lib (i + 1) chunks (decryptedChunks @ [decryptedChunk]))"

text \<open>
  \<open>decryptedResult\<close> as it stands after the single-block attempt and, when that fails,
  the chunked one (or the error thrown on the way).
\<close>

definition decryptedResult :: "crypto_lib \<Rightarrow> string \<Rightarrow> js_error + string" where
  "decryptedResult lib encryptedData =
     (case rsa_decrypt lib encryptedData of
        Some single \<Rightarrow> Inr single
      | None \<Rightarrow>
          (let rawData = base64_decode lib encryptedData;
               chunks = split_loop lib rawData 0 []
           in case decrypt_loop lib 0 chunks [] of
                Inl e \<Rightarrow> Inl e
              | Inr decryptedChunks \<Rightarrow> Inr (concat decryptedChunks)))"

text \<open>\<open>s.replace(/\+/g, '%20')\<close>.\<close>

fun replace_plus :: "string \<Rightarrow> string" where
  "replace_plus [] = []"
| "replace_plus (c # cs) = (if c = CHR ''+'' then ''%20'' @ replace_plus cs else c # replace_plus cs)"

text \<open>The body of the \<open>try\<close> block of \<open>decryptRSAResponse\<close>.\<close>

definition decryptRSAResponse_body :: "crypto_lib \<Rightarrow> string \<Rightarrow> js_error + jsval" where
  "decryptRSAResponse_body lib encryptedData =
     (case decryptedResult lib encryptedData of
        Inl e \<Rightarrow> Inl e
      | Inr plain \<Rightarrow>
          if plain = [] then Inl (Error ''RSA decryption returned null or false'')
          else (case decodeURIComponent lib (replace_plus plain) of
                  Inl e \<Rightarrow> Inl e
                | Inr urlDecoded \<Rightarrow> JSON_parse lib urlDecoded))"

text \<open>\<open>decryptRSAResponse\<close>: whatever is thrown inside is caught and becomes \<open>null\<close>.\<close>

definition decryptRSAResponse :: "crypto_lib \<Rightarrow> string \<Rightarrow> jsval" where
  "decryptRSAResponse lib encryptedData =
     (case decryptRSAResponse_body lib encryptedData of Inl e \<Rightarrow> JNull | Inr v \<Rightarrow> v)"

text \<open>\<open>decryptAESString\<close>: a string, or \<open>null\<close> when nothing came out or something threw.\<close>

definition decryptAESString :: "crypto_lib \<Rightarrow> string \<Rightarrow> jsval" where
  "decryptAESString lib encryptedData =
     (case aes_decrypt lib encryptedData of
        Inl e \<Rightarrow> JNull
      | Inr result \<Rightarrow>
          if result = [] then
            (case aes_decrypt_raw lib encryptedData of
               Inl e \<Rightarrow> JNull
             | Inr result2 \<Rightarrow> if result2 = [] then JNull else JStr result2)
          else JStr result)"

text \<open>
  \<open>v[name]\<close> for a name that is not built in (\<open>data\<close>, \<open>token\<close>, \<open>_decryptionMethod\<close>):
  reading from \<open>null\<close> or \<open>undefined\<close> throws, reading from any other value that is
  not an object with that property gives \<open>undefined\<close>.
\<close>

fun member :: "jsval \<Rightarrow> string \<Rightarrow> js_error + jsval" where
  "member JUndefined name =
     Inl (TypeError (''Cannot read properties of undefined (reading '' @ [CHR 0x27] @ name
                       @ [CHR 0x27] @ '')''))"
| "member JNull name =
     Inl (TypeError (''Cannot read properties of null (reading '' @ [CHR 0x27] @ name
                       @ [CHR 0x27] @ '')''))"
| "member (JObj props) name = Inr (get_prop props name)"
| "member v name = Inr JUndefined"

definition is_string :: "jsval \<Rightarrow> bool" where
  "is_string v = (case v of JStr _ \<Rightarrow> True | _ \<Rightarrow> False)"

text \<open>
  The own properties that \<open>{...response}\<close> copies. Only an object has any here: the
  spread is reached with \<open>response.data\<close> a string, which no array or primitive has.
\<close>

fun own_props :: "jsval \<Rightarrow> jsobject" where
  "own_props (JObj props) = props"
| "own_props v = []"

text \<open>The object \<open>{...response, data: d, _originalEncryptedData: e, _decryptionMethod: m}\<close>.\<close>

definition decrypted_envelope :: "jsval \<Rightarrow> jsval \<Rightarrow> jsval \<Rightarrow> string \<Rightarrow> jsval" where
  "decrypted_envelope response d e m =
     JObj (set_prop (set_prop (set_prop (own_props response) ''data'' d)
             ''_originalEncryptedData'' e) ''_decryptionMethod'' (JStr m))"

definition processApiResponse :: "crypto_lib \<Rightarrow> jsval \<Rightarrow> js_error + jsval" where
  "processApiResponse lib response =
     (case member response ''data'' of
        Inl e \<Rightarrow> Inl e
      | Inr response_data \<Rightarrow>
          if \<not> truthy response_data \<or> \<not> is_string response_data then Inr response
          else
            let rsaDecrypted = decryptRSAResponse lib (js_to_string response_data) in
            if truthy rsaDecrypted
            then Inr (decrypted_envelope response rsaDecrypted response_data ''RSA'')
            else
              let aesDecrypted = decryptAESString lib (js_to_string response_data) in
              if truthy aesDecrypted
              then
                (let parsed = (case JSON_parse lib (js_to_string aesDecrypted) of
                                 Inl e \<Rightarrow> aesDecrypted
                               | Inr v \<Rightarrow> v)
                 in Inr (decrypted_envelope response parsed response_data ''AES''))
              else Inr response)"

section \<open>TokenManager (src/core/authentication.js)\<close>

text \<open>\<open>typeof v === 'object'\<close>: true of objects, arrays and \<open>null\<close>.\<close>

fun typeof_object :: "jsval \<Rightarrow> bool" where
  "typeof_object JNull = True"
| "typeof_object (JArr _) = True"
| "typeof_object (JObj _) = True"
| "typeof_object _ = False"

text \<open>
  The local function \<open>findToken\<close>. \<open>for (const key in obj)\<close> visits the properties of an
  object and the indices of an array alike; \<open>findToken_props\<close> and \<open>findToken_elems\<close> are
  that loop over the remaining properties or elements.
\<close>

fun findToken :: "jsval \<Rightarrow> jsval"
  and findToken_props :: "(string \<times> jsval) list \<Rightarrow> jsval"
  and findToken_elems :: "jsval list \<Rightarrow> jsval" where
  "findToken (JObj props) =
     (if truthy (get_prop props ''token'') then get_prop props ''token''
      else findToken_props props)"
| "findToken (JArr elems) = findToken_elems elems"
| "findToken JUndefined = JNull"
| "findToken JNull = JNull"
| "findToken (JBool b) = JNull"
| "findToken (JNum n) = JNull"
| "findToken (JStr s) = JNull"
| "findToken_props [] = JNull"
| "findToken_props ((key, v) # rest) =
     (let result = findToken v in if truthy result then result else findToken_props rest)"
| "findToken_elems [] = JNull"
| "findToken_elems (v # rest) =
     (let result = findToken v in if truthy result then result else findToken_elems rest)"

text \<open>\<open>a.b\<close> where \<open>a\<close> is known not to be \<open>null\<close> or \<open>undefined\<close>.\<close>

definition prop_of :: "jsval \<Rightarrow> string \<Rightarrow> jsval" where
  "prop_of v name = (case v of JObj props \<Rightarrow> get_prop props name | _ \<Rightarrow> JUndefined)"

text \<open>
  \<open>_extractTokenFromResponse(response)\<close>, for the response object that \<open>_makeRequest\<close>
  resolves with.
\<close>

definition extractTokenFromResponse :: "jsobject \<Rightarrow> jsval" where
  "extractTokenFromResponse response =
     (let data = get_prop response ''data'' in
      if truthy data \<and> typeof_object data \<and> truthy (prop_of data ''token'')
      then prop_of data ''token''
      else if truthy data \<and> truthy (prop_of data ''data'')
                \<and> truthy (prop_of (prop_of data ''data'') ''token'')
      then prop_of (prop_of data ''data'') ''token''
      else if truthy data then findToken data
      else JNull)"

text \<open>
  The search in the specification's words: depth first, into objects only, arrays left
  untouched; a field named \<open>token\<close> gives its value.
\<close>

fun objects_only_search :: "jsval \<Rightarrow> jsval"
  and objects_only_search_props :: "(string \<times> jsval) list \<Rightarrow> jsval" where
  "objects_only_search (JObj props) =
     (case map_of props ''token'' of
        Some v \<Rightarrow> v
      | None \<Rightarrow> objects_only_search_props props)"
| "objects_only_search (JArr elems) = JNull"
| "objects_only_search JUndefined = JNull"
| "objects_only_search JNull = JNull"
| "objects_only_search (JBool b) = JNull"
| "objects_only_search (JNum n) = JNull"
| "objects_only_search (JStr s) = JNull"
| "objects_only_search_props [] = JNull"
| "objects_only_search_props ((key, v) # rest) =
     (let result = objects_only_search v in
      if result \<noteq> JNull then result else objects_only_search_props rest)"

text \<open>
  The values of all fields named \<open>token\<close> in a structure, through object properties and
  array elements, outermost first.
\<close>

fun token_values :: "jsval \<Rightarrow> jsval list"
  and token_values_props :: "(string \<times> jsval) list \<Rightarrow> jsval list"
  and token_values_elems :: "jsval list \<Rightarrow> jsval list" where
  "token_values (JObj props) =
     (case map_of props ''token'' of None \<Rightarrow> [] | Some v \<Rightarrow> [v]) @ token_values_props props"
| "token_values (JArr elems) = token_values_elems elems"
| "token_values JUndefined = []"
| "token_values JNull = []"
| "token_values (JBool b) = []"
| "token_values (JNum n) = []"
| "token_values (JStr s) = []"
| "token_values_props [] = []"
| "token_values_props ((key, v) # rest) = token_values v @ token_values_props rest"
| "token_values_elems [] = []"
| "token_values_elems (v # rest) = token_values v @ token_values_elems rest"

text \<open>
  A stand-in library for evaluating the cipher on concrete inputs: a block decrypts (to
  itself) when it is non-empty, at most 128 characters long and free of \<open>!\<close>; base64
  is the identity on character codes; a text \<open>data:c\<close> parses to the envelope \<open>{data: c}\<close>
  and any other text to itself as a string; AES always throws.
\<close>

definition toy_lib :: crypto_lib where
  "toy_lib =
     \<lparr> rsa_decrypt = (\<lambda>s. if s \<noteq> [] \<and> length s \<le> 128 \<and> CHR ''!'' \<notin> set s then Some s else None),
       base64_decode = map of_char,
       base64_encode = map char_of,
       decodeURIComponent = Inr,
       JSON_parse = (\<lambda>s. if take 5 s = ''data:'' then Inr (JObj [(''data'', JStr (drop 5 s))])
                         else Inr (JStr s)),
       aes_decrypt = (\<lambda>s. Inl (Error ''Malformed UTF-8 data'')),
       aes_decrypt_raw = (\<lambda>s. Inl (Error ''Malformed UTF-8 data'')) \<rparr>"

section \<open>RequestDispatcher (src/core/CoinPlexClient.js)\<close>

text \<open>The counters of \<open>this.stats\<close>.\<close>

record stats =
  requests :: int
  successful :: int
  failed :: int
  encrypted :: int

definition zero_stats :: stats where
  "zero_stats = \<lparr> requests = 0, successful = 0, failed = 0, encrypted = 0 \<rparr>"

text \<open>The part of \<open>this.config\<close> that a request reads; \<open>timeout\<close> is the one in effect.\<close>

record config =
  apiKey :: string
  apiSecret :: string
  autoRetry :: bool
  timeout :: int

text \<open>
  What the network does with one HTTP request: the \<open>error\<close> event, the \<open>timeout\<close>
  event, or a complete response with its status code, headers and body text.
\<close>

datatype transport =
    NetError string
  | NetTimeout
  | NetResponse int jsval string

text \<open>
  What a request does besides returning: the HTTP requests it writes and the delays it
  awaits, in order.
\<close>

datatype effect =
    HttpRequest string jsobject
  | Delay int

record client_state =
  stats :: stats
  effects :: "effect list"

text \<open>
  \<open>_makeHttpRequest\<close>: the promise rejects (\<open>Inl\<close>) on the \<open>error\<close> and \<open>timeout\<close>
  events only; a response always resolves, decrypted when \<open>processApiResponse\<close> manages,
  with the raw text and the error message when parsing or processing throws.
\<close>

definition makeHttpRequest :: "crypto_lib \<Rightarrow> config \<Rightarrow> transport \<Rightarrow> js_error + jsobject" where
  "makeHttpRequest lib cfg outcome =
     (case outcome of
        NetError m \<Rightarrow> Inl (Error (''Request failed: '' @ m))
      | NetTimeout \<Rightarrow> Inl (Error (''Request timeout after '' @ int_to_string (timeout cfg) @ ''ms''))
      | NetResponse statusCode headers body \<Rightarrow>
          (let failed_response = (\<lambda>e. [(''statusCode'', JNum statusCode), (''headers'', headers),
                                         (''data'', JStr body), (''error'', JStr (message e))])
           in case JSON_parse lib body of
                Inl e \<Rightarrow> Inr (failed_response e)
              | Inr responseData \<Rightarrow>
                  (case processApiResponse lib responseData of
                     Inl e \<Rightarrow> Inr (failed_response e)
                   | Inr decryptedResponse \<Rightarrow>
                       Inr [(''statusCode'', JNum statusCode), (''headers'', headers),
                            (''data'', prop_of decryptedResponse ''data''),
                            (''_originalData'', responseData),
                            (''_decryptionMethod'', prop_of decryptedResponse ''_decryptionMethod'')])))"

text \<open>\<open>response.statusCode >= 200 && response.statusCode < 300\<close>.\<close>

definition status_ok :: "jsobject \<Rightarrow> bool" where
  "status_ok response =
     (case get_prop response ''statusCode'' of JNum n \<Rightarrow> 200 \<le> n \<and> n < 300 | _ \<Rightarrow> False)"

text \<open>
  The \<open>while (attempts < maxAttempts)\<close> loop of \<open>request\<close>. \<open>net k\<close> is what the network
  does with the HTTP request written after \<open>k\<close> failed attempts. The result is what the
  call resolves with (\<open>Inr\<close>) or throws (\<open>Inl\<close>), and the state it leaves.
\<close>

function request_loop ::
  "crypto_lib \<Rightarrow> config \<Rightarrow> (nat \<Rightarrow> transport) \<Rightarrow> string \<Rightarrow> jsobject \<Rightarrow> nat \<Rightarrow> nat \<Rightarrow> client_state
     \<Rightarrow> (js_error + jsval) \<times> client_state" where
  "request_loop lib cfg net endpoint payload maxAttempts attempts st =
     (if attempts < maxAttempts then
        let st1 = st\<lparr> stats := (stats st)\<lparr> requests := requests (stats st) + 1 \<rparr>,
                      effects := effects st @ [HttpRequest endpoint payload] \<rparr>
        in case makeHttpRequest lib cfg (net attempts) of
             Inr response \<Rightarrow>
               let st2 = (if status_ok response
                          then st1\<lparr> stats := (stats st1)\<lparr> successful := successful (stats st1) + 1 \<rparr> \<rparr>
                          else st1\<lparr> stats := (stats st1)\<lparr> failed := failed (stats st1) + 1 \<rparr> \<rparr>);
                   st3 = (if truthy (get_prop response ''_decryptionMethod'')
                          then st2\<lparr> stats := (stats st2)\<lparr> encrypted := encrypted (stats st2) + 1 \<rparr> \<rparr>
                          else st2)
               in (Inr (JObj response), st3)
           | Inl error \<Rightarrow>
               let attempts' = attempts + 1;
                   st2 = st1\<lparr> stats := (stats st1)\<lparr> failed := failed (stats st1) + 1 \<rparr> \<rparr>
               in if attempts' \<ge> maxAttempts then (Inl error, st2)
                  else request_loop lib cfg net endpoint payload maxAttempts attempts'
                         (st2\<lparr> effects := effects st2 @ [Delay (1000 * int attempts')] \<rparr>)
      else (Inr JUndefined, st))"
  by pat_completeness auto
termination
  by (relation "measure (\<lambda>(lib, cfg, net, endpoint, payload, maxAttempts, attempts, st).
                           maxAttempts - attempts)") auto

declare request_loop.simps [simp del]

text \<open>
  \<open>request(endpoint, params)\<close>. \<open>authenticated\<close> is what \<open>this.isAuthenticated()\<close>
  answers at the call, \<open>now\<close> the clock that \<open>prepareSignedPayload\<close> reads.
\<close>

definition request ::
  "crypto_lib \<Rightarrow> hmac_fn \<Rightarrow> config \<Rightarrow> bool \<Rightarrow> int \<Rightarrow> (nat \<Rightarrow> transport) \<Rightarrow> string \<Rightarrow> jsobject
     \<Rightarrow> client_state \<Rightarrow> (js_error + jsval) \<times> client_state" where
  "request lib hmac cfg authenticated now net endpoint params st =
     (if \<not> authenticated
      then (Inl (Error ''Client not authenticated. Call authenticate() first.''), st)
      else
        let payload = prepareSignedPayload hmac now params (JStr (apiKey cfg)) (apiSecret cfg);
            maxAttempts = (if autoRetry cfg then 3 else 1)
        in request_loop lib cfg net endpoint payload maxAttempts 0 st)"

definition getStats :: "client_state \<Rightarrow> stats" where
  "getStats st = stats st"

definition resetStats :: "client_state \<Rightarrow> client_state" where
  "resetStats st = st\<lparr> stats := zero_stats \<rparr>"

text \<open>The state the constructor leaves.\<close>

definition new_client_state :: client_state where
  "new_client_state = \<lparr> stats = zero_stats, effects = [] \<rparr>"

text \<open>
  The calls a user makes on a client one after the other, each with what the world
  answers to it, and the state after a sequence of them.
\<close>

datatype client_call =
    CallRequest bool int "nat \<Rightarrow> transport" string jsobject
  | CallResetStats

fun client_step :: "crypto_lib \<Rightarrow> hmac_fn \<Rightarrow> config \<Rightarrow> client_call \<Rightarrow> client_state \<Rightarrow> client_state" where
  "client_step lib hmac cfg (CallRequest authenticated now net endpoint params) st =
     snd (request lib hmac cfg authenticated now net endpoint params st)"
| "client_step lib hmac cfg CallResetStats st = resetStats st"

definition run_calls ::
  "crypto_lib \<Rightarrow> hmac_fn \<Rightarrow> config \<Rightarrow> client_call list \<Rightarrow> client_state \<Rightarrow> client_state" where
  "run_calls lib hmac cfg calls st = fold (client_step lib hmac cfg) calls st"

definition transport_failure :: "transport \<Rightarrow> bool" where
  "transport_failure outcome = (case outcome of NetResponse _ _ _ \<Rightarrow> False | _ \<Rightarrow> True)"

definition toy_config :: config where
  "toy_config = \<lparr> apiKey = ''key'', apiSecret = ''secret'', autoRetry = True, timeout = 30000 \<rparr>"

text \<open>The invariant of the counters, and the order in which they only grow.\<close>

definition stats_consistent :: "stats \<Rightarrow> bool" where
  "stats_consistent s =
     (requests s = successful s + failed s
      \<and> 0 \<le> requests s \<and> 0 \<le> successful s \<and> 0 \<le> failed s \<and> 0 \<le> encrypted s)"

definition stats_le :: "stats \<Rightarrow> stats \<Rightarrow> bool" where
  "stats_le s s' =
     (requests s \<le> requests s' \<and> successful s \<le> successful s'
      \<and> failed s \<le> failed s' \<and> encrypted s \<le> encrypted s')"

section \<open>ExecutionScheduler (src/api/quantify.js)\<close>

text \<open>
  An entry of the results list. \<open>timestamp\<close> is the instant that the ISO string written
  by \<open>new Date().toISOString()\<close> denotes, in milliseconds since the epoch; \<open>result\<close> is
  \<open>undefined\<close> and \<open>error\<close> is absent according to which branch built the entry.
\<close>

record execution_result =
  iteration :: int
  timestamp :: int
  success :: bool
  result :: jsval
  error :: "string option"

text \<open>
  What \<open>getExecutionStats\<close> returns. The counts are named \<open>n_successful\<close> and \<open>n_failed\<close>
  here, the names \<open>successful\<close> and \<open>failed\<close> being those of the client's counters;
  \<open>firstExecution\<close> and \<open>lastExecution\<close> are \<open>None\<close> when the object has no such
  property. Rates and averages are computed in exact arithmetic, where the code computes
  in doubles.
\<close>

record execution_stats =
  total :: int
  n_successful :: int
  n_failed :: int
  successRate :: rat
  averageInterval :: int
  firstExecution :: "int option"
  lastExecution :: "int option"

text \<open>The loop that collects \<open>curr - prev\<close> for consecutive entries.\<close>

fun intervals :: "execution_result list \<Rightarrow> int list" where
  "intervals (previous # current # rest) =
     (timestamp current - timestamp previous) # intervals (current # rest)"
| "intervals _ = []"

text \<open>
  \<open>getExecutionStats(results)\<close>; \<open>None\<close> is a missing (\<open>undefined\<close> or \<open>null\<close>) argument.
  \<open>Math.round\<close> is \<open>round\<close>: the nearest integer, halves upwards.
\<close>

definition getExecutionStats :: "execution_result list option \<Rightarrow> execution_stats" where
  "getExecutionStats results_arg =
     (case results_arg of
        None \<Rightarrow>
          \<lparr> total = 0, n_successful = 0, n_failed = 0, successRate = 0, averageInterval = 0,
            firstExecution = None, lastExecution = None \<rparr>
      | Some results \<Rightarrow>
          if length results = 0 then
            \<lparr> total = 0, n_successful = 0, n_failed = 0, successRate = 0, averageInterval = 0,
              firstExecution = None, lastExecution = None \<rparr>
          else
            let successful_count = int (length (filter success results));
                failed_count = int (length results) - successful_count;
                rate = ((of_int successful_count / of_int (int (length results))) * 100 :: rat);
                average = (if length results > 1
                           then of_int (sum_list (intervals results))
                                  / of_int (int (length (intervals results)))
                           else (0::rat))
            in \<lparr> total = int (length results),
                 n_successful = successful_count,
                 n_failed = failed_count,
                 successRate = of_int (round (rate * 100)) / 100,
                 averageInterval = round (average / 1000),
                 firstExecution = Some (timestamp (hd results)),
                 lastExecution = Some (timestamp (last results)) \<rparr>)"

text \<open>
  The entries are objects, and the loop hands them out: a callback receives the entry that
  has just been pushed, \<open>onComplete\<close> receives the array \<open>results\<close> itself, and the
  handle's \<open>getResults\<close> returns a new array of the same entries. An entry is identified
  here by its position in \<open>results\<close>, where the loop only ever appends, and a write gives
  the entry at a position new contents; at a position that holds no entry yet there is
  nothing to write to.
\<close>

type_synonym entry_write = "nat \<times> execution_result"

definition write_entry :: "entry_write \<Rightarrow> execution_result list \<Rightarrow> execution_result list" where
  "write_entry w rs = (if fst w < length rs then rs[fst w := snd w] else rs)"

definition apply_writes :: "entry_write list \<Rightarrow> execution_result list \<Rightarrow> execution_result list" where
  "apply_writes ws rs = fold write_entry ws rs"

text \<open>
  What a callback supplied by the caller does when it is invoked with an entry: it may
  call \<open>scheduler.stop()\<close>, it may write to the entry it is handed and to the entries it
  reaches through the handle, and it may throw instead of returning. It is given the
  position of the entry it is handed, and the entries as they are.
\<close>

record callback_outcome =
  calls_stop :: bool
  writes :: "entry_write list"
  throws :: "string option"

type_synonym callback = "nat \<Rightarrow> execution_result list \<Rightarrow> callback_outcome"

text \<open>
  The summary handed to \<open>onComplete\<close>. Its \<open>results\<close> is the array of the loop, so what
  \<open>onComplete\<close> does includes the elements it leaves in that array; a call of
  \<open>scheduler.stop()\<close> there finds \<open>isRunning\<close> false already.
\<close>

record summary =
  totalIterations :: int
  completedIterations :: int
  summary_successful :: int
  summary_failed :: int
  summary_results :: "execution_result list"

record completion_outcome =
  results_left :: "execution_result list"
  completion_throws :: "string option"

record schedule =
  iterations :: int
  intervalMinutes :: rat
  onSuccess :: "callback option"
  onError :: "callback option"
  onComplete :: "(summary \<Rightarrow> completion_outcome) option"

text \<open>
  The world around one run of the loop: what \<open>this.execute\<close> yields in iteration \<open>i\<close>
  (the message of the error it throws, or the data it resolves with), the clock read when
  the \<open>n\<close>-th entry is built, and what the holder of the handle does while the loop is
  suspended in the call or in the wait of iteration \<open>i\<close>: whether \<open>scheduler.stop()\<close> is
  called, and the writes to the entries that \<open>scheduler.getResults()\<close> returns.
\<close>

record environment =
  execute :: "int \<Rightarrow> string + jsval"
  clock :: "nat \<Rightarrow> int"
  stop_while_executing :: "int \<Rightarrow> bool"
  stop_while_waiting :: "int \<Rightarrow> bool"
  writes_while_executing :: "int \<Rightarrow> execution_result list \<Rightarrow> entry_write list"
  writes_while_waiting :: "int \<Rightarrow> execution_result list \<Rightarrow> entry_write list"

text \<open>The variables the loop closes over, and the delays it has awaited (in ms).\<close>

record scheduler_state =
  results :: "execution_result list"
  currentIteration :: int
  isRunning :: bool
  waits :: "rat list"

text \<open>
  A callback invoked on the entry at a position: the writes it makes, the flag it may
  clear, and the error it may throw.
\<close>

definition invoke :: "callback option \<Rightarrow> nat \<Rightarrow> scheduler_state
                       \<Rightarrow> string option \<times> scheduler_state" where
  "invoke cb position st =
     (case cb of
        None \<Rightarrow> (None, st)
      | Some f \<Rightarrow>
          (let outcome = f position (results st)
           in (throws outcome,
               st\<lparr> results := apply_writes (writes outcome) (results st),
                   isRunning := isRunning st \<and> \<not> calls_stop outcome \<rparr>)))"

text \<open>
  The \<open>catch\<close> block of the inner \<open>try\<close>: the failure is recorded and \<open>onError\<close> invoked
  with the entry just pushed. An error thrown by \<open>onError\<close> leaves the loop (\<open>Some\<close>).
\<close>

definition record_failure :: "schedule \<Rightarrow> environment \<Rightarrow> int \<Rightarrow> string \<Rightarrow> scheduler_state
                               \<Rightarrow> string option \<times> scheduler_state" where
  "record_failure sch env i msg st =
     (let executionResult = \<lparr> iteration = i, timestamp = clock env (length (results st)),
                               success = False, result = JUndefined, error = Some msg \<rparr>
      in invoke (onError sch) (length (results st))
           (st\<lparr> results := results st @ [executionResult] \<rparr>))"

text \<open>
  The inner \<open>try\<close> with its \<open>catch\<close>: the call, during which the loop is suspended, the
  success entry and \<open>onSuccess\<close> invoked with the entry just pushed; whatever is thrown
  there, by the call or by \<open>onSuccess\<close>, lands in the \<open>catch\<close> block.
\<close>

definition attempt :: "schedule \<Rightarrow> environment \<Rightarrow> int \<Rightarrow> scheduler_state
                        \<Rightarrow> string option \<times> scheduler_state" where
  "attempt sch env i st =
     (let st0 = st\<lparr> results := apply_writes (writes_while_executing env i (results st)) (results st),
                    isRunning := isRunning st \<and> \<not> stop_while_executing env i \<rparr>
      in case execute env i of
           Inl msg \<Rightarrow> record_failure sch env i msg st0
         | Inr r \<Rightarrow>
             (let executionResult = \<lparr> iteration = i, timestamp = clock env (length (results st0)),
                                       success = True, result = r, error = None \<rparr>
              in case invoke (onSuccess sch) (length (results st0))
                        (st0\<lparr> results := results st0 @ [executionResult] \<rparr>) of
                   (None, st1) \<Rightarrow> (None, st1)
                 | (Some msg, st1) \<Rightarrow> record_failure sch env i msg st1))"

text \<open>
  \<open>for (let i = 1; i <= iterations && isRunning; i++)\<close>, from \<open>i\<close> on. \<open>Some\<close> is an
  error that left the loop.
\<close>

function schedule_loop :: "schedule \<Rightarrow> environment \<Rightarrow> int \<Rightarrow> scheduler_state
                             \<Rightarrow> string option \<times> scheduler_state" where
  "schedule_loop sch env i st =
     (if i \<le> iterations sch \<and> isRunning st then
        case attempt sch env i (st\<lparr> currentIteration := i \<rparr>) of
          (Some msg, st1) \<Rightarrow> (Some msg, st1)
        | (None, st1) \<Rightarrow>
            schedule_loop sch env (i + 1)
              (if i < iterations sch \<and> isRunning st1
               then st1\<lparr> waits := waits st1 @ [intervalMinutes sch * 60 * 1000],
                         results := apply_writes (writes_while_waiting env i (results st1)) (results st1),
                         isRunning := isRunning st1 \<and> \<not> stop_while_waiting env i \<rparr>
               else st1)
      else (None, st))"
  by pat_completeness auto
termination
  by (relation "measure (\<lambda>(sch, env, i, st). nat (iterations sch + 1 - i))") auto

declare schedule_loop.simps [simp del]

text \<open>
  \<open>scheduleExecutions(schedule)\<close>: the state of the scheduler once the loop it starts
  has run to its end: through the completion block, or through the outer \<open>catch\<close>.
\<close>

definition scheduleExecutions :: "schedule \<Rightarrow> environment \<Rightarrow> scheduler_state" where
  "scheduleExecutions sch env =
     (case schedule_loop sch env 1
             \<lparr> results = [], currentIteration = 0, isRunning = True, waits = [] \<rparr> of
        (Some msg, st) \<Rightarrow> st\<lparr> isRunning := False \<rparr>
      | (None, st) \<Rightarrow>
          (let st1 = st\<lparr> currentIteration := 0, isRunning := False \<rparr>;
               report = \<lparr> totalIterations = iterations sch,
                          completedIterations = int (length (results st1)),
                          summary_successful = int (length (filter success (results st1))),
                          summary_failed = int (length (filter (\<lambda>r. \<not> success r) (results st1))),
                          summary_results = results st1 \<rparr>
           in case onComplete sch of
                None \<Rightarrow> st1
              | Some f \<Rightarrow>
                  (case completion_throws (f report) of
                     None \<Rightarrow> st1\<lparr> results := results_left (f report) \<rparr>
                   | Some msg \<Rightarrow> st1\<lparr> results := results_left (f report), isRunning := False \<rparr>)))"

text \<open>
  The runs in which nobody stops the scheduler; the schedules whose \<open>onSuccess\<close> and
  \<open>onError\<close> return normally; and the runs in which the loop alone writes the entries:
  neither the holder of the handle nor a callback writes to an entry, and \<open>onComplete\<close>
  leaves in \<open>results\<close> the elements it finds there.
\<close>

definition never_stopped :: "schedule \<Rightarrow> environment \<Rightarrow> bool" where
  "never_stopped sch env =
     ((\<forall>i. \<not> stop_while_executing env i \<and> \<not> stop_while_waiting env i)
      \<and> (\<forall>f k rs. onSuccess sch = Some f \<or> onError sch = Some f \<longrightarrow> \<not> calls_stop (f k rs)))"

definition callbacks_return :: "schedule \<Rightarrow> bool" where
  "callbacks_return sch =
     (\<forall>f k rs. onSuccess sch = Some f \<or> onError sch = Some f \<longrightarrow> throws (f k rs) = None)"

definition entries_untouched :: "schedule \<Rightarrow> environment \<Rightarrow> bool" where
  "entries_untouched sch env =
     ((\<forall>i rs. writes_while_executing env i rs = [] \<and> writes_while_waiting env i rs = [])
      \<and> (\<forall>f k rs. onSuccess sch = Some f \<or> onError sch = Some f \<longrightarrow> writes (f k rs) = [])
      \<and> (\<forall>f report. onComplete sch = Some f \<longrightarrow> results_left (f report) = summary_results report))"

text \<open>
  Concrete callbacks and worlds for evaluating the scheduler: a callback that throws, one
  that does nothing, and \<open>r => { r.success = false }\<close>.
\<close>

definition throwing_callback :: callback where
  "throwing_callback k rs = \<lparr> calls_stop = False, writes = [], throws = Some ''callback failed'' \<rparr>"

definition quiet_callback :: callback where
  "quiet_callback k rs = \<lparr> calls_stop = False, writes = [], throws = None \<rparr>"

definition marking_callback :: callback where
  "marking_callback k rs =
     \<lparr> calls_stop = False, writes = [(k, (rs ! k)\<lparr> success := False \<rparr>)], throws = None \<rparr>"

definition fails_on_second :: environment where
  "fails_on_second =
     \<lparr> execute = (\<lambda>i. if i = 2 then Inl ''Request failed: socket hang up''
                       else Inr (JObj [(''hasTip'', JBool True)])),
       clock = (\<lambda>n. 1700000000000 + 250 * int n),
       stop_while_executing = (\<lambda>i. False),
       stop_while_waiting = (\<lambda>i. False),
       writes_while_executing = (\<lambda>i rs. []),
       writes_while_waiting = (\<lambda>i rs. []) \<rparr>"

definition three_runs :: "callback option \<Rightarrow> callback option \<Rightarrow> schedule" where
  "three_runs on_success on_error =
     \<lparr> iterations = 3, intervalMinutes = 0, onSuccess = on_success, onError = on_error,
       onComplete = None \<rparr>"

text \<open>
  The entry that iteration \<open>i\<close> appends when it finds \<open>n\<close> entries recorded and its
  callbacks return: a success with the data, or a failure with the message.
\<close>

definition entry :: "environment \<Rightarrow> int \<Rightarrow> nat \<Rightarrow> execution_result" where
  "entry env i n =
     (case execute env i of
        Inl msg \<Rightarrow> \<lparr> iteration = i, timestamp = clock env n, success = False,
                     result = JUndefined, error = Some msg \<rparr>
      | Inr r \<Rightarrow> \<lparr> iteration = i, timestamp = clock env n, success = True,
                   result = r, error = None \<rparr>)"

section \<open>Objects by reference\<close>

text \<open>
  \<open>getStats\<close> and the scheduler's \<open>getResults\<close> hand out objects that the caller may
  then mutate. What that does to the client and to the scheduler depends on which objects
  are shared, so here objects live in a store: a property or an array element holds a
  primitive value or a reference, \<open>alloc\<close> creates an object at the next unused
  address, and \<open>heap_write\<close> gives the object behind a reference new contents, which is
  what adding, removing and overwriting its entries come to.
\<close>

type_synonym addr = nat

datatype hval = Prim jsval | Ref addr

datatype hobj =
    HObject "(string \<times> hval) list"
  | HArray "hval list"

record heap =
  cells :: "addr \<Rightarrow> hobj option"
  next_addr :: addr

definition empty_heap :: heap where
  "empty_heap = \<lparr> cells = (\<lambda>a. None), next_addr = 0 \<rparr>"

definition alloc :: "hobj \<Rightarrow> heap \<Rightarrow> addr \<times> heap" where
  "alloc obj h =
     (next_addr h, h\<lparr> cells := (cells h)(next_addr h := Some obj), next_addr := next_addr h + 1 \<rparr>)"

definition heap_write :: "addr \<Rightarrow> hobj \<Rightarrow> heap \<Rightarrow> heap" where
  "heap_write a obj h = h\<lparr> cells := (cells h)(a := Some obj) \<rparr>"

text \<open>The client object: \<open>this.stats\<close> is a reference.\<close>

record client_object =
  stats_ref :: addr

text \<open>The constructor's \<open>this.stats = { requests: 0, successful: 0, failed: 0, encrypted: 0 }\<close>.\<close>

definition new_client :: "heap \<Rightarrow> client_object \<times> heap" where
  "new_client h =
     (case alloc (HObject [(''requests'', Prim (JNum 0)), (''successful'', Prim (JNum 0)),
                           (''failed'', Prim (JNum 0)), (''encrypted'', Prim (JNum 0))]) h of
        (a, h') \<Rightarrow> (\<lparr> stats_ref = a \<rparr>, h'))"

text \<open>The own properties that a spread copies, and the elements that an array spread copies.\<close>

definition properties_at :: "heap \<Rightarrow> addr \<Rightarrow> (string \<times> hval) list" where
  "properties_at h a = (case cells h a of Some (HObject props) \<Rightarrow> props | _ \<Rightarrow> [])"

definition elements_at :: "heap \<Rightarrow> addr \<Rightarrow> hval list" where
  "elements_at h a = (case cells h a of Some (HArray elems) \<Rightarrow> elems | _ \<Rightarrow> [])"

text \<open>\<open>getStats() { return { ...this.stats }; }\<close>: a new object with the same properties.\<close>

definition getStats_copy :: "client_object \<Rightarrow> heap \<Rightarrow> addr \<times> heap" where
  "getStats_copy c h = alloc (HObject (properties_at h (stats_ref c))) h"

text \<open>The scheduler: the variable \<open>results\<close> that the handle's closures share.\<close>

record scheduler_object =
  results_ref :: addr

text \<open>\<open>const results = [];\<close>\<close>

definition new_scheduler :: "heap \<Rightarrow> scheduler_object \<times> heap" where
  "new_scheduler h = (case alloc (HArray []) h of (a, h') \<Rightarrow> (\<lparr> results_ref = a \<rparr>, h'))"

text \<open>An entry as an object, and \<open>results.push(executionResult)\<close>.\<close>

definition entry_object :: "execution_result \<Rightarrow> hobj" where
  "entry_object r =
     HObject ([(''iteration'', Prim (JNum (iteration r))), (''timestamp'', Prim (JNum (timestamp r))),
               (''success'', Prim (JBool (success r)))]
              @ (case error r of None \<Rightarrow> [(''result'', Prim (result r))]
                               | Some msg \<Rightarrow> [(''error'', Prim (JStr msg))]))"

definition push_result :: "scheduler_object \<Rightarrow> execution_result \<Rightarrow> heap \<Rightarrow> heap" where
  "push_result s r h =
     (case alloc (entry_object r) h of
        (a, h') \<Rightarrow> heap_write (results_ref s) (HArray (elements_at h' (results_ref s) @ [Ref a])) h')"

text \<open>\<open>getResults: () => [...results]\<close>: a new array with the same elements.\<close>

definition getResults :: "scheduler_object \<Rightarrow> heap \<Rightarrow> addr \<times> heap" where
  "getResults s h = alloc (HArray (elements_at h (results_ref s))) h"

text \<open>Any number of mutations of the object behind one reference.\<close>

definition mutate :: "addr \<Rightarrow> hobj list \<Rightarrow> heap \<Rightarrow> heap" where
  "mutate a contents h = fold (heap_write a) contents h"

text \<open>
  A store to evaluate the accessors in: a new client, a new scheduler, and one recorded
  entry.
\<close>

definition demo_client :: client_object where
  "demo_client = fst (new_client empty_heap)"

definition demo_scheduler :: scheduler_object where
  "demo_scheduler = fst (new_scheduler (snd (new_client empty_heap)))"

definition demo_heap :: heap where
  "demo_heap =
     push_result demo_scheduler (entry fails_on_second 1 0)
       (snd (new_scheduler (snd (new_client empty_heap))))"

section \<open>Overlapping requests\<close>

text \<open>
  \<open>request\<close> is an \<open>async\<close> function: between \<open>this.stats.requests++\<close> and the update
  that follows the response it awaits the HTTP request, and between two attempts it awaits
  the delay; while it is suspended, other calls on the same client run (\<open>IncomeAPI\<close>
  starts four requests at once with \<open>Promise.all\<close>). Here a call in progress is a task
  that is suspended in one of the two places, and the client advances by events.
\<close>

datatype phase = AwaitingResponse | AwaitingDelay

record task =
  attempts_made :: nat
  max_attempts :: nat
  phase_of :: phase

record dispatcher =
  counters :: stats
  pending :: "(nat \<times> task) list"
  completed :: "(nat \<times> (js_error + jsval)) list"

text \<open>
  \<^item> \<open>Called\<close>: \<open>request\<close> is called (the task gets a name) and runs up to its first
    \<open>await\<close>, or throws when the client is not authenticated;
  \<^item> \<open>Settled\<close>: the promise of \<open>_makeHttpRequest\<close> that a task awaits resolves or
    rejects, and the task runs on to its return, its \<open>throw\<close> or the \<open>await\<close> of the delay;
  \<^item> \<open>Elapsed\<close>: the delay that a task awaits is over, and the task runs into the next
    round of the loop up to the \<open>await\<close> of the HTTP request;
  \<^item> \<open>Reset\<close>: \<open>resetStats\<close> is called.
\<close>

datatype event =
    Called nat bool
  | Settled nat "js_error + jsobject"
  | Elapsed nat
  | Reset

definition drop_task :: "nat \<Rightarrow> (nat \<times> task) list \<Rightarrow> (nat \<times> task) list" where
  "drop_task name tasks = filter (\<lambda>p. fst p \<noteq> name) tasks"

definition bump_requests :: "stats \<Rightarrow> stats" where
  "bump_requests s = s\<lparr> requests := requests s + 1 \<rparr>"

definition bump_failed :: "stats \<Rightarrow> stats" where
  "bump_failed s = s\<lparr> failed := failed s + 1 \<rparr>"

text \<open>The updates of the \<open>try\<close> block after the response has come.\<close>

definition count_response :: "jsobject \<Rightarrow> stats \<Rightarrow> stats" where
  "count_response response s =
     (let s1 = (if status_ok response then s\<lparr> successful := successful s + 1 \<rparr>
                else s\<lparr> failed := failed s + 1 \<rparr>)
      in if truthy (get_prop response ''_decryptionMethod'')
         then s1\<lparr> encrypted := encrypted s1 + 1 \<rparr> else s1)"

fun on_event :: "config \<Rightarrow> event \<Rightarrow> dispatcher \<Rightarrow> dispatcher" where
  "on_event cfg (Called name authenticated) d =
     (if map_of (pending d) name \<noteq> None then d
      else if \<not> authenticated
      then d\<lparr> completed := completed d @
                 [(name, Inl (Error ''Client not authenticated. Call authenticate() first.''))] \<rparr>
      else d\<lparr> counters := bump_requests (counters d),
              pending := (name, \<lparr> attempts_made = 0,
                                  max_attempts = (if autoRetry cfg then 3 else 1),
                                  phase_of = AwaitingResponse \<rparr>) # pending d \<rparr>)"
| "on_event cfg (Settled name outcome) d =
     (case map_of (pending d) name of
        None \<Rightarrow> d
      | Some t \<Rightarrow>
          if phase_of t \<noteq> AwaitingResponse then d
          else
            (case outcome of
               Inr response \<Rightarrow>
                 d\<lparr> counters := count_response response (counters d),
                    pending := drop_task name (pending d),
                    completed := completed d @ [(name, Inr (JObj response))] \<rparr>
             | Inl err \<Rightarrow>
                 if attempts_made t + 1 \<ge> max_attempts t
                 then d\<lparr> counters := bump_failed (counters d),
                         pending := drop_task name (pending d),
                         completed := completed d @ [(name, Inl err)] \<rparr>
                 else d\<lparr> counters := bump_failed (counters d),
                         pending := (name, t\<lparr> attempts_made := attempts_made t + 1,
                                              phase_of := AwaitingDelay \<rparr>)
                                    # drop_task name (pending d) \<rparr>))"
| "on_event cfg (Elapsed name) d =
     (case map_of (pending d) name of
        None \<Rightarrow> d
      | Some t \<Rightarrow>
          if phase_of t \<noteq> AwaitingDelay then d
          else d\<lparr> counters := bump_requests (counters d),
                  pending := (name, t\<lparr> phase_of := AwaitingResponse \<rparr>)
                             # drop_task name (pending d) \<rparr>)"
| "on_event cfg Reset d = d\<lparr> counters := zero_stats \<rparr>"

definition new_dispatcher :: dispatcher where
  "new_dispatcher = \<lparr> counters = zero_stats, pending = [], completed = [] \<rparr>"

definition after_events :: "config \<Rightarrow> event list \<Rightarrow> dispatcher \<Rightarrow> dispatcher" where
  "after_events cfg events d = fold (on_event cfg) events d"

text \<open>The tasks that have counted their request and not yet its outcome.\<close>

definition awaiting_response :: "dispatcher \<Rightarrow> nat" where
  "awaiting_response d = length (filter (\<lambda>p. phase_of (snd p) = AwaitingResponse) (pending d))"

definition ok_response :: jsobject where
  "ok_response = [(''statusCode'', JNum 200), (''headers'', JNull),
                  (''data'', JObj [(''balance'', JNum 12)]), (''_originalData'', JNull),
                  (''_decryptionMethod'', JUndefined)]"

text \<open>
  The counters with calls in progress: every request counted is a success, a failure, or
  still awaited.
\<close>

definition balanced :: "dispatcher \<Rightarrow> bool" where
  "balanced d =
     (distinct (map fst (pending d))
      \<and> requests (counters d)
          = successful (counters d) + failed (counters d) + int (awaiting_response d)
      \<and> 0 \<le> successful (counters d) \<and> 0 \<le> failed (counters d) \<and> 0 \<le> encrypted (counters d))"

text \<open>
  The events of one call (after it has been called) that runs with nothing else in
  between: each HTTP request settles as the network decides, and each delay elapses.
\<close>

function solo_events ::
  "crypto_lib \<Rightarrow> config \<Rightarrow> (nat \<Rightarrow> transport) \<Rightarrow> nat \<Rightarrow> nat \<Rightarrow> nat \<Rightarrow> event list" where
  "solo_events lib cfg net name maxAttempts k =
     (if k < maxAttempts then
        Settled name (makeHttpRequest lib cfg (net k))
          # (case makeHttpRequest lib cfg (net k) of
               Inr response \<Rightarrow> []
             | Inl err \<Rightarrow>
                 if k + 1 \<ge> maxAttempts then []
                 else Elapsed name # solo_events lib cfg net name maxAttempts (k + 1))
      else [])"
  by pat_completeness auto
termination
  by (relation "measure (\<lambda>(lib, cfg, net, name, maxAttempts, k). maxAttempts - k)") auto

declare solo_events.simps [simp del]

text \<open>
  The sequences of events in which \<open>resetStats\<close> is called only at moments when no call
  of \<open>request\<close> awaits its HTTP response.
\<close>

fun no_reset_while_awaiting :: "config \<Rightarrow> event list \<Rightarrow> dispatcher \<Rightarrow> bool" where
  "no_reset_while_awaiting cfg [] d = True"
| "no_reset_while_awaiting cfg (e # es) d =
     ((case e of Reset \<Rightarrow> awaiting_response d = 0 | _ \<Rightarrow> True)
      \<and> no_reset_while_awaiting cfg es (on_event cfg e d))"

text \<open>No counter below zero.\<close>

definition stats_nonneg :: "stats \<Rightarrow> bool" where
  "stats_nonneg s = (0 \<le> requests s \<and> 0 \<le> successful s \<and> 0 \<le> failed s \<and> 0 \<le> encrypted s)"

section \<open>Properties of the signer\<close>

subsection \<open>Objects as property lists\<close>

lemma get_prop_set_prop:
  "get_prop (set_prop obj k v) k' = (if k' = k then v else get_prop obj k')"
  by (induction obj k v rule: set_prop.induct) (auto simp: get_prop_def)

lemma keys_set_prop:
  "map fst (set_prop obj k v) = (if k \<in> fst ` set obj then map fst obj else map fst obj @ [k])"
  by (induction obj k v rule: set_prop.induct) auto

lemma distinct_set_prop:
  "distinct (map fst obj) \<Longrightarrow> distinct (map fst (set_prop obj k v))"
  by (simp add: keys_set_prop)

lemma delete_prop_set_prop:
  "delete_prop (set_prop obj k v) k = delete_prop obj k"
  by (induction obj k v rule: set_prop.induct) (auto simp: delete_prop_def)

lemma delete_prop_absent:
  "k \<notin> fst ` set obj \<Longrightarrow> delete_prop obj k = obj"
  by (induction obj) (auto simp: delete_prop_def)

lemma get_prop_distinct:
  "distinct (map fst obj) \<Longrightarrow> (k, v) \<in> set obj \<Longrightarrow> get_prop obj k = v"
  by (simp add: get_prop_def)

subsection \<open>The canonical string\<close>

lemma signatureBase_loop_pos:
  "index > 0 \<Longrightarrow> signatureBase_loop data index keys acc =
     acc @ concat (map (\<lambda>k. ''&'' @ k @ ''='' @ js_to_string (get_prop data k)) keys)"
  by (induction keys arbitrary: index acc) simp_all

lemma join_with_Cons:
  "join_with sep (x # xs) = x @ concat (map (\<lambda>s. sep @ s) xs)"
  by (induction xs arbitrary: x) simp_all

lemma signatureBase_loop_join:
  "signatureBase_loop data 0 keys [] =
     join_with ''&'' (map (\<lambda>k. k @ ''='' @ js_to_string (get_prop data k)) keys)"
proof (cases keys)
  case Nil
  then show ?thesis by simp
next
  case (Cons k ks)
  then show ?thesis
    by (simp add: signatureBase_loop_pos join_with_Cons comp_def del: join_with.simps)
qed

lemma calculateSignature_eq_canonical:
  "calculateSignature hmac data secret = hmac secret (canonical_string data)"
  by (simp add: calculateSignature_def canonical_string_def Object_keys_def signatureBase_loop_join)

lemma get_prop_perm:
  assumes "distinct (map fst data1)" "mset data2 = mset data1"
  shows "get_prop data2 = get_prop data1"
proof -
  have "mset (map fst data2) = mset (map fst data1)" using assms(2) by (metis mset_map)
  then have d2: "distinct (map fst data2)" using assms(1) by (metis mset_eq_imp_distinct_iff)
  have "set data2 = set data1" using assms(2) by (metis mset_eq_setD)
  then have "map_of data2 = map_of data1" using assms(1) d2 by (simp add: map_of_inject_set)
  then show ?thesis by (simp add: get_prop_def fun_eq_iff)
qed

lemma canonical_string_perm:
  assumes "distinct (map fst data1)" "mset data2 = mset data1"
  shows "canonical_string data2 = canonical_string data1"
proof -
  have "mset (map fst data2) = mset (map fst data1)" using assms(2) by (metis mset_map)
  then have "sort (map fst data2) = sort (map fst data1)"
    by (metis properties_for_sort sorted_sort mset_sort)
  then show ?thesis using get_prop_perm[OF assms] by (simp add: canonical_string_def)
qed

lemma canonical_string_ab: "canonical_string [(''a'', JStr ''1''), (''b'', JStr ''2'')] = ''a=1&b=2''"
  by code_simp

lemma canonical_string_ba: "canonical_string [(''b'', JStr ''2''), (''a'', JStr ''1'')] = ''a=1&b=2''"
  by code_simp

text \<open>
  C1. \<open>calculateSignature\<close> does not depend on the insertion order of the parameter
  map: two property lists with pairwise different keys that are reorderings of each other
  get the same signature. The signature is the HMAC digest, under the secret, of the
  canonical string (keys sorted lexicographically, \<open>k=v\<close> pairs joined by \<open>&\<close>, no trailing
  separator). In particular \<open>{b:"2", a:"1"}\<close> and \<open>{a:"1", b:"2"}\<close> sign identically under
  \<open>"secret"\<close>, and the signature is the digest of \<open>"a=1&b=2"\<close>.
\<close>

theorem calculateSignature_order_insensitive:
  assumes "distinct (map fst data1)" and "mset data2 = mset data1"
  shows "calculateSignature hmac data2 secret = calculateSignature hmac data1 secret
       \<and> calculateSignature hmac data1 secret = hmac secret (canonical_string data1)
       \<and> sorted (sort (map fst data1)) \<and> mset (sort (map fst data1)) = mset (map fst data1)
       \<and> calculateSignature hmac [(''b'', JStr ''2''), (''a'', JStr ''1'')] ''secret''
           = calculateSignature hmac [(''a'', JStr ''1''), (''b'', JStr ''2'')] ''secret''
       \<and> calculateSignature hmac [(''a'', JStr ''1''), (''b'', JStr ''2'')] ''secret''
           = hmac ''secret'' ''a=1&b=2''"
  using canonical_string_perm[OF assms]
  by (simp add: calculateSignature_eq_canonical canonical_string_ab canonical_string_ba)

theorem calculateSignature_order_insensitive_witness:
  "distinct (map fst [(''limit'', JNum 10), (''page'', JNum 1)])
   \<and> mset [(''page'', JNum 1), (''limit'', JNum 10)] = mset [(''limit'', JNum 10), (''page'', JNum 1)]
   \<and> calculateSignature toy_hmac [(''page'', JNum 1), (''limit'', JNum 10)] ''secret''
       = calculateSignature toy_hmac [(''limit'', JNum 10), (''page'', JNum 1)] ''secret''
   \<and> calculateSignature toy_hmac [(''b'', JStr ''2''), (''a'', JStr ''1'')] ''secret''
       = toy_hmac ''secret'' ''a=1&b=2''"
proof -
  have d: "distinct (map fst [(''limit'', JNum 10), (''page'', JNum 1)])" by simp
  have m: "mset [(''page'', JNum 1), (''limit'', JNum 10)]
           = mset [(''limit'', JNum 10), (''page'', JNum 1)]" by (simp add: add.commute)
  show ?thesis
    using d m calculateSignature_order_insensitive[OF d m, of toy_hmac "''secret''"]
    by simp
qed

section \<open>Properties of the cipher\<close>

lemma blocks_of_Nil: "blocks_of n [] = []"
  by (subst blocks_of.simps) simp

lemma blocks_of_step:
  "0 < n \<Longrightarrow> xs \<noteq> [] \<Longrightarrow> blocks_of n xs = take n xs # blocks_of n (drop n xs)"
  by (subst blocks_of.simps) simp

lemma split_loop_blocks:
  "split_loop lib rawData i chunks =
     chunks @ map (base64_encode lib) (blocks_of 128 (drop i rawData))"
proof (induction lib rawData i chunks rule: split_loop.induct)
  case (1 lib rawData i chunks)
  show ?case
  proof (cases "i < length rawData")
    case True
    then have ne: "drop i rawData \<noteq> []" by simp
    have "split_loop lib rawData i chunks =
          split_loop lib rawData (i + 128) (chunks @ [base64_encode lib (slice rawData i (i + 128))])"
      using True by (subst split_loop.simps) simp
    also have "\<dots> = (chunks @ [base64_encode lib (slice rawData i (i + 128))]) @
         map (base64_encode lib) (blocks_of 128 (drop (i + 128) rawData))"
      using "1.IH"[OF True] by simp
    also have "\<dots> = chunks @ map (base64_encode lib) (blocks_of 128 (drop i rawData))"
      using ne by (simp add: blocks_of_step[OF _ ne] slice_def add.commute)
    finally show ?thesis .
  next
    case False
    then show ?thesis by (subst split_loop.simps) (simp add: blocks_of_Nil)
  qed
qed

lemma concat_blocks_of: "0 < n \<Longrightarrow> concat (blocks_of n xs) = xs"
proof (induction n xs rule: blocks_of.induct)
  case (1 n xs)
  show ?case
  proof (cases "xs = []")
    case True
    then show ?thesis by (simp add: blocks_of_Nil)
  next
    case False
    then show ?thesis using 1 by (simp add: blocks_of_step)
  qed
qed

lemma blocks_of_length: "b \<in> set (blocks_of n xs) \<Longrightarrow> 0 < length b \<and> length b \<le> n"
proof (induction n xs rule: blocks_of.induct)
  case (1 n xs)
  show ?case
  proof (cases "n = 0 \<or> xs = []")
    case True
    then show ?thesis using "1.prems" by (subst (asm) blocks_of.simps) simp
  next
    case False
    then have "b = take n xs \<or> b \<in> set (blocks_of n (drop n xs))"
      using "1.prems" by (simp add: blocks_of_step)
    then show ?thesis using "1.IH" False by auto
  qed
qed

lemma blocks_of_full: "b \<in> set (butlast (blocks_of n xs)) \<Longrightarrow> length b = n"
proof (induction n xs rule: blocks_of.induct)
  case (1 n xs)
  show ?case
  proof (cases "n = 0 \<or> xs = []")
    case True
    then show ?thesis using "1.prems" by (subst (asm) blocks_of.simps) simp
  next
    case False
    show ?thesis
    proof (cases "drop n xs = []")
      case True
      then show ?thesis using "1.prems" False by (simp add: blocks_of_step blocks_of_Nil)
    next
      case dne: False
      then have ne: "blocks_of n (drop n xs) \<noteq> []" using False by (simp add: blocks_of_step)
      have "b = take n xs \<or> b \<in> set (butlast (blocks_of n (drop n xs)))"
        using "1.prems" False ne by (simp add: blocks_of_step)
      then show ?thesis using "1.IH" False dne by auto
    qed
  qed
qed

lemma decrypt_loop_fail:
  "\<exists>c \<in> set chunks. rsa_decrypt lib c = None \<Longrightarrow> \<exists>e. decrypt_loop lib i chunks acc = Inl e"
  by (induction chunks arbitrary: i acc) (auto split: option.splits)

lemma decrypt_loop_ok:
  "\<forall>c \<in> set chunks. rsa_decrypt lib c \<noteq> None \<Longrightarrow>
   decrypt_loop lib i chunks acc = Inr (acc @ map (\<lambda>c. the (rsa_decrypt lib c)) chunks)"
  by (induction chunks arbitrary: i acc) (auto split: option.splits)

lemma decryptedResult_chunked:
  assumes "rsa_decrypt lib encryptedData = None"
  shows "decryptedResult lib encryptedData =
           (case decrypt_loop lib 0
                   (map (base64_encode lib) (blocks_of 128 (base64_decode lib encryptedData))) [] of
              Inl e \<Rightarrow> Inl e
            | Inr decryptedChunks \<Rightarrow> Inr (concat decryptedChunks))"
  using assms by (simp add: decryptedResult_def split_loop_blocks)

text \<open>
  C3. The chunked path is taken only when the single-block decryption fails: when that
  succeeds its result stands. Otherwise the ciphertext is base64-decoded, the bytes are
  split into blocks that concatenate back to them, every block non-empty and at most 128
  bytes long and every block but the last exactly 128, and each block is base64-encoded
  again and decrypted on its own. If any one block fails to decrypt, an error is thrown and
  \<open>decryptRSAResponse\<close> returns \<open>null\<close>; if all decrypt, the decrypted result is the
  concatenation of the decrypted blocks in block order.
\<close>

theorem chunked_rsa_all_or_nothing:
  "(rsa_decrypt lib encryptedData = Some single \<longrightarrow> decryptedResult lib encryptedData = Inr single)
 \<and> (rsa_decrypt lib encryptedData = None \<longrightarrow>
     (let rawData = base64_decode lib encryptedData;
          blocks = blocks_of 128 rawData;
          chunks = map (base64_encode lib) blocks
      in concat blocks = rawData
       \<and> (\<forall>b \<in> set blocks. 0 < length b \<and> length b \<le> 128)
       \<and> (\<forall>b \<in> set (butlast blocks). length b = 128)
       \<and> ((\<exists>c \<in> set chunks. rsa_decrypt lib c = None) \<longrightarrow>
            (\<exists>e. decryptedResult lib encryptedData = Inl e)
              \<and> decryptRSAResponse lib encryptedData = JNull)
       \<and> ((\<forall>c \<in> set chunks. rsa_decrypt lib c \<noteq> None) \<longrightarrow>
            decryptedResult lib encryptedData
              = Inr (concat (map (\<lambda>c. the (rsa_decrypt lib c)) chunks)))))"
proof (intro conjI impI)
  assume "rsa_decrypt lib encryptedData = Some single"
  then show "decryptedResult lib encryptedData = Inr single"
    by (simp add: decryptedResult_def)
next
  assume none: "rsa_decrypt lib encryptedData = None"
  let ?raw = "base64_decode lib encryptedData"
  let ?chunks = "map (base64_encode lib) (blocks_of 128 ?raw)"
  have fail: "(\<exists>e. decryptedResult lib encryptedData = Inl e)
              \<and> decryptRSAResponse lib encryptedData = JNull"
    if bad: "\<exists>c \<in> set ?chunks. rsa_decrypt lib c = None"
  proof -
    obtain e where "decrypt_loop lib 0 ?chunks [] = Inl e"
      using decrypt_loop_fail[OF bad] by blast
    then have "decryptedResult lib encryptedData = Inl e"
      by (simp add: decryptedResult_chunked[OF none])
    then show ?thesis
      by (simp add: decryptRSAResponse_def decryptRSAResponse_body_def)
  qed
  have ok: "decryptedResult lib encryptedData
              = Inr (concat (map (\<lambda>c. the (rsa_decrypt lib c)) ?chunks))"
    if good: "\<forall>c \<in> set ?chunks. rsa_decrypt lib c \<noteq> None"
    using decrypt_loop_ok[OF good, of 0 "[]"] by (simp add: decryptedResult_chunked[OF none])
  show "let rawData = base64_decode lib encryptedData;
          blocks = blocks_of 128 rawData;
          chunks = map (base64_encode lib) blocks
      in concat blocks = rawData
       \<and> (\<forall>b \<in> set blocks. 0 < length b \<and> length b \<le> 128)
       \<and> (\<forall>b \<in> set (butlast blocks). length b = 128)
       \<and> ((\<exists>c \<in> set chunks. rsa_decrypt lib c = None) \<longrightarrow>
            (\<exists>e. decryptedResult lib encryptedData = Inl e)
              \<and> decryptRSAResponse lib encryptedData = JNull)
       \<and> ((\<forall>c \<in> set chunks. rsa_decrypt lib c \<noteq> None) \<longrightarrow>
            decryptedResult lib encryptedData
              = Inr (concat (map (\<lambda>c. the (rsa_decrypt lib c)) chunks)))"
    unfolding Let_def
    using fail ok blocks_of_length[of _ 128 ?raw] blocks_of_full[of _ 128 ?raw]
    by (simp add: concat_blocks_of)
qed

lemma toy_single_130: "rsa_decrypt toy_lib (replicate 130 (CHR ''a'')) = None"
  by (simp add: toy_lib_def)

lemma toy_single_bad: "rsa_decrypt toy_lib (replicate 129 (CHR ''a'') @ ''!'') = None"
  by (simp add: toy_lib_def)

lemma toy_chunks_130:
  "map (base64_encode toy_lib) (blocks_of 128 (base64_decode toy_lib (replicate 130 (CHR ''a''))))
     = [replicate 128 (CHR ''a''), ''aa'']"
  by code_simp

lemma toy_chunks_bad:
  "map (base64_encode toy_lib) (blocks_of 128 (base64_decode toy_lib (replicate 129 (CHR ''a'') @ ''!'')))
     = [replicate 128 (CHR ''a''), ''a!'']"
  by code_simp

theorem chunked_rsa_all_or_nothing_witness:
  "rsa_decrypt toy_lib ''abc'' = Some ''abc'' \<and> decryptedResult toy_lib ''abc'' = Inr ''abc''
 \<and> rsa_decrypt toy_lib (replicate 130 (CHR ''a'')) = None
 \<and> decryptedResult toy_lib (replicate 130 (CHR ''a'')) = Inr (replicate 130 (CHR ''a''))
 \<and> rsa_decrypt toy_lib (replicate 129 (CHR ''a'') @ ''!'') = None
 \<and> decryptRSAResponse toy_lib (replicate 129 (CHR ''a'') @ ''!'') = JNull"
proof -
  have s: "rsa_decrypt toy_lib ''abc'' = Some ''abc''" by (simp add: toy_lib_def)
  have good: "\<forall>c \<in> set [replicate 128 (CHR ''a''), ''aa'']. rsa_decrypt toy_lib c \<noteq> None"
    by (simp add: toy_lib_def)
  have bad: "\<exists>c \<in> set [replicate 128 (CHR ''a''), ''a!'']. rsa_decrypt toy_lib c = None"
    by (simp add: toy_lib_def)
  have v: "concat (map (\<lambda>c. the (rsa_decrypt toy_lib c)) [replicate 128 (CHR ''a''), ''aa''])
            = replicate 130 (CHR ''a'')"
    by code_simp
  have 1: "decryptedResult toy_lib ''abc'' = Inr ''abc''"
    using chunked_rsa_all_or_nothing[of toy_lib "''abc''" "''abc''"] s by blast
  have 2: "decryptedResult toy_lib (replicate 130 (CHR ''a'')) = Inr (replicate 130 (CHR ''a''))"
  proof -
    note t = chunked_rsa_all_or_nothing[of toy_lib "replicate 130 (CHR ''a'')", unfolded Let_def toy_chunks_130]
    from t toy_single_130 good
    have "decryptedResult toy_lib (replicate 130 (CHR ''a''))
            = Inr (concat (map (\<lambda>c. the (rsa_decrypt toy_lib c)) [replicate 128 (CHR ''a''), ''aa'']))"
      by blast
    then show ?thesis by (simp only: v)
  qed
  have 3: "decryptRSAResponse toy_lib (replicate 129 (CHR ''a'') @ ''!'') = JNull"
  proof -
    note t = chunked_rsa_all_or_nothing[of toy_lib "replicate 129 (CHR ''a'') @ ''!''", unfolded Let_def toy_chunks_bad]
    from t toy_single_bad bad show ?thesis by blast
  qed
  show ?thesis using s 1 2 3 toy_single_130 toy_single_bad by blast
qed

lemma processApiResponse_undecrypted:
  assumes "get_prop envelope ''data'' = JStr ciphertext"
      and "\<not> truthy (decryptRSAResponse lib ciphertext)"
      and "\<not> truthy (decryptAESString lib ciphertext)"
  shows "processApiResponse lib (JObj envelope) = Inr (JObj envelope)"
  using assms by (simp add: processApiResponse_def is_string_def Let_def)

text \<open>
  C4. For every envelope whose \<open>data\<close> is a string on which neither the RSA path nor the
  AES path yields anything (both return \<open>null\<close> or another falsy value),
  \<open>processApiResponse\<close> returns, without throwing, the very envelope it was given: \<open>data\<close>
  is still the ciphertext and no property, so no decryption-method marker, is added.
\<close>

theorem processApiResponse_both_fail:
  assumes "get_prop envelope ''data'' = JStr ciphertext"
      and "\<not> truthy (decryptRSAResponse lib ciphertext)"
      and "\<not> truthy (decryptAESString lib ciphertext)"
  shows "processApiResponse lib (JObj envelope) = Inr (JObj envelope)"
  using assms by (simp add: processApiResponse_def is_string_def Let_def)


theorem processApiResponse_both_fail_witness:
  "get_prop [(''code'', JNum 0), (''data'', JStr ''!!'')] ''data'' = JStr ''!!''
 \<and> \<not> truthy (decryptRSAResponse toy_lib ''!!'')
 \<and> \<not> truthy (decryptAESString toy_lib ''!!'')
 \<and> processApiResponse toy_lib (JObj [(''code'', JNum 0), (''data'', JStr ''!!'')])
      = Inr (JObj [(''code'', JNum 0), (''data'', JStr ''!!'')])"
proof -
  have g: "get_prop [(''code'', JNum 0), (''data'', JStr ''!!'')] ''data'' = JStr ''!!''"
    by (simp add: get_prop_def)
  have r: "\<not> truthy (decryptRSAResponse toy_lib ''!!'')" by code_simp
  have a: "\<not> truthy (decryptAESString toy_lib ''!!'')" by code_simp
  show ?thesis using g r a processApiResponse_both_fail[OF g r a] by blast
qed

section \<open>Properties of the token search\<close>

lemma findToken_sound:
  "findToken v = JNull \<or> (truthy (findToken v) \<and> findToken v \<in> set (token_values v))"
  "findToken_props props = JNull \<or>
     (truthy (findToken_props props) \<and> findToken_props props \<in> set (token_values_props props))"
  "findToken_elems elems = JNull \<or>
     (truthy (findToken_elems elems) \<and> findToken_elems elems \<in> set (token_values_elems elems))"
proof (induction v and props and elems rule: findToken_findToken_props_findToken_elems.induct)
  case (1 props)
  then show ?case by (auto simp: get_prop_def split: option.splits)
next
  case (9 key v rest)
  then show ?case by (auto simp: Let_def)
next
  case (11 v rest)
  then show ?case by (auto simp: Let_def)
qed simp_all

lemma findToken_complete:
  "(\<exists>t \<in> set (token_values v). truthy t) \<Longrightarrow> truthy (findToken v)"
  "(\<exists>t \<in> set (token_values_props props). truthy t) \<Longrightarrow> truthy (findToken_props props)"
  "(\<exists>t \<in> set (token_values_elems elems). truthy t) \<Longrightarrow> truthy (findToken_elems elems)"
proof (induction v and props and elems rule: findToken_findToken_props_findToken_elems.induct)
  case (1 props)
  then show ?case by (force simp: get_prop_def split: option.splits)
next
  case (9 key v rest)
  then show ?case by (force simp: Let_def)
next
  case (11 v rest)
  then show ?case by (force simp: Let_def)
qed simp_all

lemma token_values_member:
  "(k, v) \<in> set props \<Longrightarrow> set (token_values v) \<subseteq> set (token_values_props props)"
  by (induction props) auto

lemma prop_of_token_in:
  "truthy (prop_of d ''token'') \<Longrightarrow> prop_of d ''token'' \<in> set (token_values d)"
  by (cases d) (auto simp: prop_of_def get_prop_def split: option.splits)

lemma prop_of_child:
  "truthy (prop_of d k) \<Longrightarrow> set (token_values (prop_of d k)) \<subseteq> set (token_values d)"
proof (cases d)
  case (JObj props)
  assume t: "truthy (prop_of d k)"
  then obtain v where "map_of props k = Some v" "prop_of d k = v"
    using JObj by (auto simp: prop_of_def get_prop_def split: option.splits)
  then show ?thesis using JObj token_values_member[of k v props] by (auto dest: map_of_SomeD)
qed (auto simp: prop_of_def)

lemma extract_sound:
  "extractTokenFromResponse response = JNull \<or>
     (truthy (extractTokenFromResponse response)
      \<and> extractTokenFromResponse response \<in> set (token_values (get_prop response ''data'')))"
  using findToken_sound(1)[of "get_prop response ''data''"]
        prop_of_token_in[of "get_prop response ''data''"]
        prop_of_token_in[of "prop_of (get_prop response ''data'') ''data''"]
        prop_of_child[of "get_prop response ''data''" "''data''"]
  by (auto simp: extractTokenFromResponse_def Let_def)

lemma falsy_no_tokens: "\<not> truthy d \<Longrightarrow> token_values d = []"
  by (cases d) auto

lemma extract_complete:
  assumes "\<exists>t \<in> set (token_values (get_prop response ''data'')). truthy t"
  shows "truthy (extractTokenFromResponse response)"
proof -
  have "truthy (get_prop response ''data'')" using assms falsy_no_tokens by fastforce
  then show ?thesis using findToken_complete(1)[OF assms]
    by (auto simp: extractTokenFromResponse_def Let_def)
qed

lemma deep_example:
 "extractTokenFromResponse
       [(''statusCode'', JNum 200),
        (''data'', JObj [(''code'', JNum 0),
                         (''result'', JObj [(''user'', JObj [(''id'', JNum 7),
                              (''session'', JObj [(''ttl'', JNum 3), (''token'', JStr ''tok'')])])]),
                         (''msg'', JStr ''ok'')])] = JStr ''tok''"
  by code_simp

lemma none_example:
 "extractTokenFromResponse
       [(''statusCode'', JNum 200),
        (''data'', JObj [(''code'', JNum 0),
                         (''result'', JObj [(''user'', JObj [(''id'', JNum 7),
                              (''session'', JObj [(''ttl'', JNum 3)])])]),
                         (''msg'', JStr ''ok'')])] = JNull"
  by code_simp

text \<open>
  C5, as the specification states it, fails on the code: the search is not confined to
  objects. A token that sits in an object inside an array is found, where a search that
  leaves arrays untouched finds none; and a \<open>token\<close> field whose value is the empty string
  is passed over, where the claim promises that field's value.
\<close>

theorem token_search_counterexample:
  "extractTokenFromResponse [(''data'', JObj [(''items'', JArr [JObj [(''token'', JStr ''abc'')]])])]
     = JStr ''abc''
 \<and> objects_only_search (JObj [(''items'', JArr [JObj [(''token'', JStr ''abc'')]])]) = JNull
 \<and> extractTokenFromResponse [(''data'', JObj [(''token'', JStr '''')])] = JNull
 \<and> objects_only_search (JObj [(''token'', JStr '''')]) = JStr ''''"
  by code_simp

text \<open>
  C5, amended. The token search after login is an unbounded depth-first search that
  descends into objects and arrays alike. Whatever it returns is \<open>null\<close> or the truthy value
  of a field named \<open>token\<close> somewhere in the decrypted structure; it returns such a value
  whenever the structure holds a \<open>token\<close> field with a truthy value at any depth, through
  objects and array elements (so also at depth 3 and more among sibling keys that are not
  tokens); and it returns \<open>null\<close> when the structure holds no \<open>token\<close> field with a truthy
  value.
\<close>

theorem token_search_finds_truthy_token:
  "(extractTokenFromResponse response = JNull
      \<or> (truthy (extractTokenFromResponse response)
          \<and> extractTokenFromResponse response \<in> set (token_values (get_prop response ''data''))))
 \<and> ((\<exists>t \<in> set (token_values (get_prop response ''data'')). truthy t)
      \<longrightarrow> truthy (extractTokenFromResponse response))
 \<and> ((\<forall>t \<in> set (token_values (get_prop response ''data'')). \<not> truthy t)
      \<longrightarrow> extractTokenFromResponse response = JNull)
 \<and> extractTokenFromResponse
       [(''statusCode'', JNum 200),
        (''data'', JObj [(''code'', JNum 0),
                         (''result'', JObj [(''user'', JObj [(''id'', JNum 7),
                              (''session'', JObj [(''ttl'', JNum 3), (''token'', JStr ''tok'')])])]),
                         (''msg'', JStr ''ok'')])] = JStr ''tok''
 \<and> extractTokenFromResponse
       [(''statusCode'', JNum 200),
        (''data'', JObj [(''code'', JNum 0),
                         (''result'', JObj [(''user'', JObj [(''id'', JNum 7),
                              (''session'', JObj [(''ttl'', JNum 3)])])]),
                         (''msg'', JStr ''ok'')])] = JNull"
proof -
  have absent: "extractTokenFromResponse response = JNull"
    if "\<forall>t \<in> set (token_values (get_prop response ''data'')). \<not> truthy t"
    using extract_sound[of response] that by blast
  show ?thesis
    using extract_sound[of response] extract_complete[of response] absent
          deep_example none_example
    by blast
qed

theorem token_search_finds_truthy_token_witness:
  "truthy (extractTokenFromResponse
      [(''data'', JObj [(''list'', JArr [JNum 1, JObj [(''token'', JStr ''abc'')]])])])
 \<and> extractTokenFromResponse [(''data'', JObj [(''list'', JArr [JNum 1, JObj [(''id'', JStr ''abc'')]])])]
     = JNull"
proof -
  let ?r1 = "[(''data'', JObj [(''list'', JArr [JNum 1, JObj [(''token'', JStr ''abc'')]])])]"
  let ?r2 = "[(''data'', JObj [(''list'', JArr [JNum 1, JObj [(''id'', JStr ''abc'')]])])]"
  have p1: "\<exists>t \<in> set (token_values (get_prop ?r1 ''data'')). truthy t" by code_simp
  have p2: "\<forall>t \<in> set (token_values (get_prop ?r2 ''data'')). \<not> truthy t" by code_simp
  show ?thesis
    using token_search_finds_truthy_token[of ?r1] token_search_finds_truthy_token[of ?r2] p1 p2
    by blast
qed

section \<open>Properties of the dispatcher\<close>

lemma makeHttpRequest_rejects:
  "transport_failure t \<Longrightarrow> \<exists>e. makeHttpRequest lib cfg t = Inl e"
  by (cases t) (auto simp: transport_failure_def makeHttpRequest_def)

lemma makeHttpRequest_resolves:
  "\<exists>response. makeHttpRequest lib cfg (NetResponse statusCode headers body) = Inr response"
  by (auto simp: makeHttpRequest_def Let_def split: sum.splits)

lemma request_loop_rejected:
  assumes "attempts < maxAttempts" "makeHttpRequest lib cfg (net attempts) = Inl e"
  shows "request_loop lib cfg net endpoint payload maxAttempts attempts st =
           (let st2 = st\<lparr> stats := (stats st)\<lparr> requests := requests (stats st) + 1,
                                                failed := failed (stats st) + 1 \<rparr>,
                           effects := effects st @ [HttpRequest endpoint payload] \<rparr>
            in if attempts + 1 \<ge> maxAttempts then (Inl e, st2)
               else request_loop lib cfg net endpoint payload maxAttempts (attempts + 1)
                      (st2\<lparr> effects := effects st2 @ [Delay (1000 * int (attempts + 1))] \<rparr>))"
  using assms by (subst request_loop.simps) (simp add: Let_def)

lemma request_loop_resolved:
  assumes "attempts < maxAttempts" "makeHttpRequest lib cfg (net attempts) = Inr response"
  shows "fst (request_loop lib cfg net endpoint payload maxAttempts attempts st) = Inr (JObj response)
       \<and> effects (snd (request_loop lib cfg net endpoint payload maxAttempts attempts st))
           = effects st @ [HttpRequest endpoint payload]"
  using assms by (subst request_loop.simps, subst request_loop.simps) (simp add: Let_def)

lemma request_loop_consistent:
  "stats_consistent (stats st) \<Longrightarrow>
   stats_consistent (stats (snd (request_loop lib cfg net endpoint payload maxAttempts attempts st)))"
proof (induction lib cfg net endpoint payload maxAttempts attempts st rule: request_loop.induct)
  case (1 lib cfg net endpoint payload maxAttempts attempts st)
  show ?case
  proof (cases "attempts < maxAttempts")
    case False
    then show ?thesis using "1.prems" by (subst request_loop.simps) simp
  next
    case True
    show ?thesis
    proof (cases "makeHttpRequest lib cfg (net attempts)")
      case (Inr response)
      then show ?thesis using True "1.prems"
        by (subst request_loop.simps) (simp add: Let_def stats_consistent_def)
    next
      case (Inl e)
      show ?thesis
      proof (cases "attempts + 1 \<ge> maxAttempts")
        case last: True
        then show ?thesis using True Inl "1.prems"
          by (simp add: request_loop_rejected Let_def stats_consistent_def)
      next
        case more: False
        have "stats_consistent (stats (snd (request_loop lib cfg net endpoint payload maxAttempts (attempts + 1)
                 (st\<lparr> stats := (stats st)\<lparr> requests := requests (stats st) + 1,
                                              failed := failed (stats st) + 1 \<rparr>,
                      effects := effects st @ [HttpRequest endpoint payload, Delay (1000 * int (attempts + 1))] \<rparr>))))"
          using "1.IH"[OF True refl Inl refl refl more] "1.prems"
          by (simp add: stats_consistent_def)
        then show ?thesis using True Inl more
          by (simp add: request_loop_rejected Let_def)
      qed
    qed
  qed
qed

lemma request_loop_mono:
  "stats_le (stats st)
     (stats (snd (request_loop lib cfg net endpoint payload maxAttempts attempts st)))"
proof (induction lib cfg net endpoint payload maxAttempts attempts st rule: request_loop.induct)
  case (1 lib cfg net endpoint payload maxAttempts attempts st)
  show ?case
  proof (cases "attempts < maxAttempts")
    case False
    then show ?thesis by (subst request_loop.simps) (simp add: stats_le_def)
  next
    case True
    show ?thesis
    proof (cases "makeHttpRequest lib cfg (net attempts)")
      case (Inr response)
      then show ?thesis using True
        by (subst request_loop.simps) (simp add: Let_def stats_le_def)
    next
      case (Inl e)
      show ?thesis
      proof (cases "attempts + 1 \<ge> maxAttempts")
        case last: True
        then show ?thesis using True Inl
          by (simp add: request_loop_rejected Let_def stats_le_def)
      next
        case more: False
        have "stats_le (stats (st\<lparr> stats := (stats st)\<lparr> requests := requests (stats st) + 1,
                                              failed := failed (stats st) + 1 \<rparr>,
                      effects := effects st @ [HttpRequest endpoint payload, Delay (1000 * int (attempts + 1))] \<rparr>))
             (stats (snd (request_loop lib cfg net endpoint payload maxAttempts (attempts + 1)
                 (st\<lparr> stats := (stats st)\<lparr> requests := requests (stats st) + 1,
                                              failed := failed (stats st) + 1 \<rparr>,
                      effects := effects st @ [HttpRequest endpoint payload, Delay (1000 * int (attempts + 1))] \<rparr>))))"
          using "1.IH"[OF True refl Inl refl refl more] by simp
        then show ?thesis using True Inl more
          by (simp add: request_loop_rejected Let_def stats_le_def)
      qed
    qed
  qed
qed

lemma client_step_consistent:
  assumes "stats_consistent (stats st)"
  shows "stats_consistent (stats (client_step lib hmac cfg c st))"
proof (cases c)
  case (CallRequest authenticated now net endpoint params)
  then show ?thesis using assms by (simp add: request_def Let_def request_loop_consistent)
next
  case CallResetStats
  then show ?thesis by (simp add: resetStats_def zero_stats_def stats_consistent_def)
qed

lemma run_calls_consistent:
  "stats_consistent (stats st) \<Longrightarrow> stats_consistent (stats (run_calls lib hmac cfg calls st))"
  unfolding run_calls_def
  by (induction calls arbitrary: st) (simp_all add: client_step_consistent)

lemma count_drop_task:
  assumes "distinct (map fst tasks)" "map_of tasks name = Some t"
  shows "length (filter Q tasks)
           = length (filter Q (drop_task name tasks)) + (if Q (name, t) then 1 else 0)"
  using assms
proof (induction tasks)
  case Nil
  then show ?case by simp
next
  case (Cons p tasks)
  show ?case
  proof (cases "fst p = name")
    case True
    then have p: "p = (name, t)" using Cons.prems(2) by (cases p) simp
    have "name \<notin> fst ` set tasks" using Cons.prems(1) True by auto
    then have "drop_task name tasks = tasks"
      by (induction tasks) (auto simp: drop_task_def)
    then show ?thesis using p by (simp add: drop_task_def)
  next
    case False
    then have "map_of tasks name = Some t" using Cons.prems(2) by (cases p) (simp split: if_splits)
    then show ?thesis using Cons False by (simp add: drop_task_def)
  qed
qed

lemma distinct_drop_task:
  "distinct (map fst tasks) \<Longrightarrow> distinct (map fst (drop_task name tasks))"
  by (simp add: drop_task_def distinct_map_filter)

lemma name_not_in_drop_task: "name \<notin> fst ` set (drop_task name tasks)"
  by (auto simp: drop_task_def)

lemma count_response_effect:
  "requests (count_response r s) = requests s
 \<and> successful (count_response r s) + failed (count_response r s) = successful s + failed s + 1
 \<and> successful s \<le> successful (count_response r s)
 \<and> failed s \<le> failed (count_response r s)
 \<and> encrypted s \<le> encrypted (count_response r s)"
  by (simp add: count_response_def Let_def)

lemma on_event_balanced:
  assumes "balanced d" "case e of Reset \<Rightarrow> awaiting_response d = 0 | _ \<Rightarrow> True"
  shows "balanced (on_event cfg e d)"
proof (cases e)
  case (Called name authenticated)
  then show ?thesis using assms(1)
    by (auto simp: balanced_def awaiting_response_def bump_requests_def
             dest: weak_map_of_SomeI split: if_splits)
next
  case (Settled name outcome)
  show ?thesis
  proof (cases "map_of (pending d) name")
    case None
    then show ?thesis using Settled assms(1) by simp
  next
    case (Some t)
    note cnt = count_drop_task[OF _ Some, of "\<lambda>p. phase_of (snd p) = AwaitingResponse"]
    show ?thesis
    proof (cases "phase_of t = AwaitingResponse")
      case False
      then show ?thesis using Settled Some assms(1) by simp
    next
      case True
      have c: "awaiting_response d
                 = length (filter (\<lambda>p. phase_of (snd p) = AwaitingResponse)
                            (drop_task name (pending d))) + 1"
        using cnt assms(1) True by (simp add: balanced_def awaiting_response_def)
      show ?thesis
      proof (cases outcome)
        case (Inr response)
        then show ?thesis
          using Settled Some True assms(1) c count_response_effect[of response "counters d"]
          by (simp add: balanced_def awaiting_response_def distinct_drop_task)
      next
        case (Inl err)
        then show ?thesis
          using Settled Some True assms(1) c name_not_in_drop_task[of name "pending d"]
          by (simp add: balanced_def awaiting_response_def distinct_drop_task bump_failed_def)
      qed
    qed
  qed
next
  case (Elapsed name)
  show ?thesis
  proof (cases "map_of (pending d) name")
    case None
    then show ?thesis using Elapsed assms(1) by simp
  next
    case (Some t)
    note cnt = count_drop_task[OF _ Some, of "\<lambda>p. phase_of (snd p) = AwaitingResponse"]
    show ?thesis
    proof (cases "phase_of t = AwaitingDelay")
      case False
      then show ?thesis using Elapsed Some assms(1) by simp
    next
      case True
      have c: "awaiting_response d
                 = length (filter (\<lambda>p. phase_of (snd p) = AwaitingResponse)
                            (drop_task name (pending d)))"
        using cnt assms(1) True by (simp add: balanced_def awaiting_response_def)
      show ?thesis
        using Elapsed Some True assms(1) c name_not_in_drop_task[of name "pending d"]
        by (simp add: balanced_def awaiting_response_def distinct_drop_task bump_requests_def)
    qed
  qed
next
  case Reset
  then show ?thesis using assms
    by (simp add: balanced_def awaiting_response_def zero_stats_def)
qed

lemma after_events_balanced:
  "balanced d \<Longrightarrow> no_reset_while_awaiting cfg events d \<Longrightarrow> balanced (after_events cfg events d)"
  unfolding after_events_def
  by (induction events arbitrary: d) (simp_all add: on_event_balanced)

lemma on_event_nonneg:
  assumes "stats_nonneg (counters d)"
  shows "stats_nonneg (counters (on_event cfg e d))"
proof (cases e)
  case (Called name authenticated)
  then show ?thesis using assms by (simp add: stats_nonneg_def bump_requests_def)
next
  case (Settled name outcome)
  show ?thesis
  proof (cases outcome)
    case (Inr response)
    then show ?thesis
      using Settled assms count_response_effect[of response "counters d"]
      by (auto simp: stats_nonneg_def split: option.splits)
  next
    case (Inl err)
    then show ?thesis using Settled assms
      by (auto simp: stats_nonneg_def bump_failed_def split: option.splits)
  qed
next
  case (Elapsed name)
  then show ?thesis using assms
    by (auto simp: stats_nonneg_def bump_requests_def split: option.splits)
next
  case Reset
  then show ?thesis by (simp add: stats_nonneg_def zero_stats_def)
qed

lemma after_events_nonneg:
  "stats_nonneg (counters d) \<Longrightarrow> stats_nonneg (counters (after_events cfg events d))"
  unfolding after_events_def
  by (induction events arbitrary: d) (simp_all add: on_event_nonneg)

lemma on_event_mono:
  assumes "e \<noteq> Reset"
  shows "stats_le (counters d) (counters (on_event cfg e d))"
proof (cases e)
  case (Called name authenticated)
  then show ?thesis by (simp add: stats_le_def bump_requests_def)
next
  case (Settled name outcome)
  show ?thesis
  proof (cases outcome)
    case (Inr response)
    then show ?thesis
      using Settled count_response_effect[of response "counters d"]
      by (auto simp: stats_le_def split: option.splits)
  next
    case (Inl err)
    then show ?thesis using Settled
      by (auto simp: stats_le_def bump_failed_def split: option.splits)
  qed
next
  case (Elapsed name)
  then show ?thesis
    by (auto simp: stats_le_def bump_requests_def split: option.splits)
next
  case Reset
  then show ?thesis using assms by simp
qed

lemma new_dispatcher_balanced: "balanced new_dispatcher"
  by (simp add: balanced_def new_dispatcher_def zero_stats_def awaiting_response_def)

text \<open>
  The two models of \<open>request\<close> agree: a call that runs with nothing else in between
  leaves, event by event, the counters that the loop computes.
\<close>

lemma solo_events_agree:
  "k < m \<Longrightarrow>
   map_of (pending d) name = Some \<lparr> attempts_made = k, max_attempts = m, phase_of = AwaitingResponse \<rparr> \<Longrightarrow>
   counters d = bump_requests (stats st) \<Longrightarrow>
   counters (after_events cfg (solo_events lib cfg net name m k) d)
     = stats (snd (request_loop lib cfg net endpoint payload m k st))"
proof (induction lib cfg net endpoint payload m k st arbitrary: d rule: request_loop.induct)
  case (1 lib cfg net endpoint payload m k st)
  let ?t = "\<lparr> attempts_made = k, max_attempts = m, phase_of = AwaitingResponse \<rparr>"
  show ?case
  proof (cases "makeHttpRequest lib cfg (net k)")
    case (Inr response)
    have ev: "solo_events lib cfg net name m k = [Settled name (Inr response)]"
      using "1.prems"(1) Inr by (subst solo_events.simps) simp
    show ?thesis
      using "1.prems" Inr
      by (subst request_loop.simps)
         (simp add: ev after_events_def count_response_def bump_requests_def Let_def)
  next
    case (Inl err)
    show ?thesis
    proof (cases "k + 1 \<ge> m")
      case True
      have ev: "solo_events lib cfg net name m k = [Settled name (Inl err)]"
        using "1.prems"(1) Inl True by (subst solo_events.simps) simp
      show ?thesis
        using "1.prems" Inl True
        by (simp add: request_loop_rejected ev after_events_def bump_requests_def
              bump_failed_def Let_def)
    next
      case False
      let ?d2 = "on_event cfg (Elapsed name) (on_event cfg (Settled name (Inl err)) d)"
      let ?st2 = "st\<lparr> stats := (stats st)\<lparr> requests := requests (stats st) + 1,
                                              failed := failed (stats st) + 1 \<rparr>,
                      effects := effects st @ [HttpRequest endpoint payload,
                                               Delay (1000 * int (k + 1))] \<rparr>"
      have ev: "solo_events lib cfg net name m k
                  = Settled name (Inl err) # Elapsed name # solo_events lib cfg net name m (k + 1)"
        using "1.prems"(1) Inl False by (subst solo_events.simps) simp
      have p2: "map_of (pending ?d2) name
                  = Some \<lparr> attempts_made = k + 1, max_attempts = m, phase_of = AwaitingResponse \<rparr>"
        using "1.prems"(2) False by simp
      have c2: "counters ?d2 = bump_requests (stats ?st2)"
        using "1.prems"(2,3) False by (simp add: bump_requests_def bump_failed_def)
      have k2: "k + 1 < m" using False by simp
      note ih = "1.IH"[OF "1.prems"(1) refl Inl refl refl False k2 p2]
      have "counters (after_events cfg (solo_events lib cfg net name m (k + 1)) ?d2)
              = stats (snd (request_loop lib cfg net endpoint payload m (k + 1) ?st2))"
        using ih c2 by simp
      then show ?thesis
        using "1.prems"(1) Inl False
        by (simp add: request_loop_rejected ev after_events_def Let_def)
    qed
  qed
qed

lemma sequential_call_agrees:
  assumes "map_of (pending d) name = None" and "counters d = stats st"
  shows "counters (after_events cfg
            (Called name True # solo_events lib cfg net name (if autoRetry cfg then 3 else 1) 0) d)
           = stats (snd (request lib hmac cfg True now net endpoint params st))"
proof -
  let ?m = "if autoRetry cfg then 3 else 1 :: nat"
  let ?d1 = "on_event cfg (Called name True) d"
  have p: "map_of (pending ?d1) name
             = Some \<lparr> attempts_made = 0, max_attempts = ?m, phase_of = AwaitingResponse \<rparr>"
    using assms(1) by simp
  have c: "counters ?d1 = bump_requests (stats st)" using assms by simp
  have "counters (after_events cfg (solo_events lib cfg net name ?m 0) ?d1)
          = stats (snd (request_loop lib cfg net endpoint
                (prepareSignedPayload hmac now params (JStr (apiKey cfg)) (apiSecret cfg)) ?m 0 st))"
    by (rule solo_events_agree[OF _ p c]) simp
  then show ?thesis by (simp add: request_def Let_def after_events_def)
qed

text \<open>
  C9, as the specification states it, fails on the code in two ways. When calls overlap:
  with two requests started one right after the other, the moment the first one completes
  finds \<open>requests = 2\<close>, \<open>successful = 1\<close> and \<open>failed = 0\<close>, the second being counted
  as a request and not yet as an outcome. And when \<open>resetStats\<close> is called while a call
  awaits its response: the call then completes with nothing else in progress and leaves
  \<open>requests = 0\<close> and \<open>successful = 1\<close>.
\<close>

theorem overlapping_requests_counterexample:
  "map fst (completed (after_events toy_config
       [Called 1 True, Called 2 True, Settled 1 (Inr ok_response)] new_dispatcher)) = [1]
 \<and> requests (counters (after_events toy_config
       [Called 1 True, Called 2 True, Settled 1 (Inr ok_response)] new_dispatcher)) = 2
 \<and> successful (counters (after_events toy_config
       [Called 1 True, Called 2 True, Settled 1 (Inr ok_response)] new_dispatcher)) = 1
 \<and> failed (counters (after_events toy_config
       [Called 1 True, Called 2 True, Settled 1 (Inr ok_response)] new_dispatcher)) = 0
 \<and> map fst (completed (after_events toy_config
       [Called 1 True, Reset, Settled 1 (Inr ok_response)] new_dispatcher)) = [1]
 \<and> pending (after_events toy_config
       [Called 1 True, Reset, Settled 1 (Inr ok_response)] new_dispatcher) = []
 \<and> requests (counters (after_events toy_config
       [Called 1 True, Reset, Settled 1 (Inr ok_response)] new_dispatcher)) = 0
 \<and> successful (counters (after_events toy_config
       [Called 1 True, Reset, Settled 1 (Inr ok_response)] new_dispatcher)) = 1
 \<and> failed (counters (after_events toy_config
       [Called 1 True, Reset, Settled 1 (Inr ok_response)] new_dispatcher)) = 0"
  by code_simp

text \<open>
  C9, amended. Starting from the counters the constructor sets, all zero, and as long as
  \<open>resetStats\<close> is not called while a call of \<open>request\<close> awaits its HTTP response:
  at every moment \<open>requests\<close> is \<open>successful + failed\<close> plus the number of calls that
  await their response, so \<open>requests = successful + failed\<close> after every completed call
  of \<open>request\<close> (resolved or thrown) that leaves no other call in progress, and in
  particular after every call when \<open>request\<close> and \<open>resetStats\<close> are called one after
  the other. Whenever \<open>resetStats\<close> is called, no counter is ever negative, no step of a
  call of \<open>request\<close> lowers a counter, and \<open>resetStats\<close> sets all four counters to zero.
\<close>

theorem stats_invariant:
  "(no_reset_while_awaiting cfg events new_dispatcher \<longrightarrow>
      (let d = after_events cfg events new_dispatcher in
         requests (counters d)
           = successful (counters d) + failed (counters d) + int (awaiting_response d)
       \<and> (pending d = [] \<longrightarrow>
             requests (counters d) = successful (counters d) + failed (counters d))))
 \<and> stats_nonneg (counters (after_events cfg events new_dispatcher))
 \<and> (e \<noteq> Reset \<longrightarrow> stats_le (counters d0) (counters (on_event cfg e d0)))
 \<and> counters (on_event cfg Reset d0) = \<lparr> requests = 0, successful = 0, failed = 0, encrypted = 0 \<rparr>
 \<and> counters new_dispatcher = \<lparr> requests = 0, successful = 0, failed = 0, encrypted = 0 \<rparr>
 \<and> stats_consistent (stats (run_calls lib hmac cfg calls new_client_state))
 \<and> stats_le (stats st) (stats (snd (request lib hmac cfg authenticated now net endpoint params st)))
 \<and> getStats (resetStats st) = \<lparr> requests = 0, successful = 0, failed = 0, encrypted = 0 \<rparr>
 \<and> getStats new_client_state = \<lparr> requests = 0, successful = 0, failed = 0, encrypted = 0 \<rparr>"
proof -
  have "stats_consistent (stats new_client_state)"
    by (simp add: new_client_state_def zero_stats_def stats_consistent_def)
  then have a: "stats_consistent (stats (run_calls lib hmac cfg calls new_client_state))"
    by (rule run_calls_consistent)
  have b: "stats_le (stats st) (stats (snd (request lib hmac cfg authenticated now net endpoint params st)))"
    by (simp add: request_def Let_def request_loop_mono) (simp add: stats_le_def)
  have c: "requests (counters d)
           = successful (counters d) + failed (counters d) + int (awaiting_response d)
       \<and> (pending d = [] \<longrightarrow>
             requests (counters d) = successful (counters d) + failed (counters d))"
    if "no_reset_while_awaiting cfg events new_dispatcher"
      and "d = after_events cfg events new_dispatcher" for d
  proof -
    have "balanced d"
      using after_events_balanced[OF new_dispatcher_balanced that(1)] that(2) by simp
    then show ?thesis by (auto simp: balanced_def awaiting_response_def)
  qed
  have c': "no_reset_while_awaiting cfg events new_dispatcher \<longrightarrow>
      (let d = after_events cfg events new_dispatcher in
         requests (counters d)
           = successful (counters d) + failed (counters d) + int (awaiting_response d)
       \<and> (pending d = [] \<longrightarrow>
             requests (counters d) = successful (counters d) + failed (counters d)))"
    unfolding Let_def using c by blast
  have n: "stats_nonneg (counters (after_events cfg events new_dispatcher))"
    by (rule after_events_nonneg) (simp add: new_dispatcher_def zero_stats_def stats_nonneg_def)
  have m: "e \<noteq> Reset \<longrightarrow> stats_le (counters d0) (counters (on_event cfg e d0))"
    using on_event_mono by blast
  have z: "counters (on_event cfg Reset d0) = \<lparr> requests = 0, successful = 0, failed = 0, encrypted = 0 \<rparr>"
    by (simp add: zero_stats_def)
  have z0: "counters new_dispatcher = \<lparr> requests = 0, successful = 0, failed = 0, encrypted = 0 \<rparr>"
    by (simp add: new_dispatcher_def zero_stats_def)
  have r1: "getStats (resetStats st) = \<lparr> requests = 0, successful = 0, failed = 0, encrypted = 0 \<rparr>"
    by (simp add: getStats_def resetStats_def zero_stats_def)
  have r2: "getStats new_client_state = \<lparr> requests = 0, successful = 0, failed = 0, encrypted = 0 \<rparr>"
    by (simp add: getStats_def new_client_state_def zero_stats_def)
  show ?thesis using c' n m z z0 a b r1 r2 by blast
qed

theorem stats_invariant_witness:
  "no_reset_while_awaiting (toy_config\<lparr> autoRetry := False \<rparr>)
       [Called 1 True, Called 2 True, Settled 1 (Inr ok_response),
        Settled 2 (Inl (Error ''Request failed: reset'')), Reset, Called 3 True,
        Settled 3 (Inr ok_response)] new_dispatcher
 \<and> pending (after_events (toy_config\<lparr> autoRetry := False \<rparr>)
       [Called 1 True, Called 2 True, Settled 1 (Inr ok_response),
        Settled 2 (Inl (Error ''Request failed: reset'')), Reset, Called 3 True,
        Settled 3 (Inr ok_response)] new_dispatcher) = []
 \<and> requests (counters (after_events (toy_config\<lparr> autoRetry := False \<rparr>)
       [Called 1 True, Called 2 True, Settled 1 (Inr ok_response),
        Settled 2 (Inl (Error ''Request failed: reset'')), Reset, Called 3 True,
        Settled 3 (Inr ok_response)] new_dispatcher))
     = successful (counters (after_events (toy_config\<lparr> autoRetry := False \<rparr>)
       [Called 1 True, Called 2 True, Settled 1 (Inr ok_response),
        Settled 2 (Inl (Error ''Request failed: reset'')), Reset, Called 3 True,
        Settled 3 (Inr ok_response)] new_dispatcher))
       + failed (counters (after_events (toy_config\<lparr> autoRetry := False \<rparr>)
       [Called 1 True, Called 2 True, Settled 1 (Inr ok_response),
        Settled 2 (Inl (Error ''Request failed: reset'')), Reset, Called 3 True,
        Settled 3 (Inr ok_response)] new_dispatcher))
 \<and> Called 4 True \<noteq> Reset
 \<and> stats_le (counters new_dispatcher)
       (counters (on_event (toy_config\<lparr> autoRetry := False \<rparr>) (Called 4 True) new_dispatcher))"
proof -
  let ?cfg = "toy_config\<lparr> autoRetry := False \<rparr>"
  let ?es = "[Called 1 True, Called 2 True, Settled 1 (Inr ok_response),
              Settled 2 (Inl (Error ''Request failed: reset'')), Reset, Called 3 True,
              Settled 3 (Inr ok_response)]"
  have nr: "no_reset_while_awaiting ?cfg ?es new_dispatcher"
    by code_simp
  have quiet: "pending (after_events ?cfg ?es new_dispatcher) = []"
    by code_simp
  have ne: "Called 4 True \<noteq> Reset" by simp
  note t = stats_invariant[of ?cfg ?es "Called 4 True" new_dispatcher]
  note t1 = t[THEN conjunct1, THEN mp, OF nr, unfolded Let_def, THEN conjunct2, THEN mp, OF quiet]
  note t2 = t[THEN conjunct2, THEN conjunct2, THEN conjunct1, THEN mp, OF ne]
  show ?thesis using nr quiet t1 ne t2 by blast
qed

lemma request_all_fail_retry:
  assumes "autoRetry cfg"
      and f0: "makeHttpRequest lib cfg (net 0) = Inl e0"
      and f1: "makeHttpRequest lib cfg (net 1) = Inl e1"
      and f2: "makeHttpRequest lib cfg (net 2) = Inl e2"
  shows "request lib hmac cfg True now net endpoint params st =
          (Inl e2,
           st\<lparr> stats := (stats st)\<lparr> requests := requests (stats st) + 3, failed := failed (stats st) + 3 \<rparr>,
               effects := effects st @
                 [HttpRequest endpoint (prepareSignedPayload hmac now params (JStr (apiKey cfg)) (apiSecret cfg)),
                  Delay 1000,
                  HttpRequest endpoint (prepareSignedPayload hmac now params (JStr (apiKey cfg)) (apiSecret cfg)),
                  Delay 2000,
                  HttpRequest endpoint (prepareSignedPayload hmac now params (JStr (apiKey cfg)) (apiSecret cfg))] \<rparr>)"
proof -
  have f1': "makeHttpRequest lib cfg (net (Suc 0)) = Inl e1" using f1 by simp
  have f2': "makeHttpRequest lib cfg (net (Suc (Suc 0))) = Inl e2" using f2 by (simp add: numeral_2_eq_2)
  show ?thesis
    using assms(1)
    by (simp add: request_def Let_def
          request_loop_rejected[where net=net and attempts=0, OF _ f0]
          request_loop_rejected[where net=net and attempts="Suc 0", OF _ f1']
          request_loop_rejected[where net=net and attempts="Suc (Suc 0)", OF _ f2'])
qed

lemma request_all_fail_single:
  assumes "\<not> autoRetry cfg"
      and f0: "makeHttpRequest lib cfg (net 0) = Inl e0"
  shows "request lib hmac cfg True now net endpoint params st =
          (Inl e0,
           st\<lparr> stats := (stats st)\<lparr> requests := requests (stats st) + 1, failed := failed (stats st) + 1 \<rparr>,
               effects := effects st @
                 [HttpRequest endpoint (prepareSignedPayload hmac now params (JStr (apiKey cfg)) (apiSecret cfg))] \<rparr>)"
  using assms(1)
  by (simp add: request_def Let_def request_loop_rejected[where net=net and attempts=0, OF _ f0])

lemma makeHttpRequest_undecrypted:
  assumes "JSON_parse lib body = Inr (JObj envelope)"
      and "get_prop envelope ''data'' = JStr ciphertext"
      and "\<not> truthy (decryptRSAResponse lib ciphertext)"
      and "\<not> truthy (decryptAESString lib ciphertext)"
  shows "makeHttpRequest lib cfg (NetResponse statusCode headers body) =
           Inr [(''statusCode'', JNum statusCode), (''headers'', headers),
                (''data'', JStr ciphertext), (''_originalData'', JObj envelope),
                (''_decryptionMethod'', get_prop envelope ''_decryptionMethod'')]"
  using assms(1,2) processApiResponse_undecrypted[OF assms(2,3,4)]
  by (simp add: makeHttpRequest_def Let_def prop_of_def)

lemma request_first_resolves:
  assumes "makeHttpRequest lib cfg (net 0) = Inr response"
  shows "fst (request lib hmac cfg True now net endpoint params st) = Inr (JObj response)
       \<and> effects (snd (request lib hmac cfg True now net endpoint params st))
           = effects st @ [HttpRequest endpoint
                (prepareSignedPayload hmac now params (JStr (apiKey cfg)) (apiSecret cfg))]"
  using request_loop_resolved[where net=net and attempts=0, OF _ assms]
  by (simp add: request_def Let_def)

text \<open>
  C6. For an authenticated client, with \<open>maxAttempts\<close> being 3 when auto-retry is on and
  1 when it is off: when every one of the \<open>maxAttempts\<close> attempts fails in the transport,
  \<open>request\<close> writes exactly \<open>maxAttempts\<close> HTTP requests, awaits 1000 ms after the first
  failure and 2000 ms after the second, and throws the error of the last attempt. When
  the first attempt gets any response, that response is returned after one HTTP request
  and no delay; in particular a response whose ciphertext neither RSA nor AES decrypts
  comes back as it is, the ciphertext in \<open>data\<close>, and is not retried.
\<close>

theorem request_retry_policy:
  assumes "authenticated"
  shows
  "(let maxAttempts = (if autoRetry cfg then 3 else 1 :: nat);
        sent = HttpRequest endpoint
                 (prepareSignedPayload hmac now params (JStr (apiKey cfg)) (apiSecret cfg));
        outcome = request lib hmac cfg authenticated now net endpoint params st
    in ((\<forall>k < maxAttempts. transport_failure (net k)) \<longrightarrow>
          (\<exists>e. makeHttpRequest lib cfg (net (maxAttempts - 1)) = Inl e \<and> fst outcome = Inl e)
          \<and> effects (snd outcome) =
              effects st @ (if autoRetry cfg then [sent, Delay 1000, sent, Delay 2000, sent]
                            else [sent]))
     \<and> (\<not> transport_failure (net 0) \<longrightarrow>
          (\<exists>response. makeHttpRequest lib cfg (net 0) = Inr response
                       \<and> fst outcome = Inr (JObj response))
          \<and> effects (snd outcome) = effects st @ [sent])
     \<and> (\<forall>statusCode headers body envelope ciphertext.
          net 0 = NetResponse statusCode headers body
          \<and> JSON_parse lib body = Inr (JObj envelope)
          \<and> get_prop envelope ''data'' = JStr ciphertext
          \<and> \<not> truthy (decryptRSAResponse lib ciphertext)
          \<and> \<not> truthy (decryptAESString lib ciphertext)
          \<longrightarrow> fst outcome =
                Inr (JObj [(''statusCode'', JNum statusCode), (''headers'', headers),
                           (''data'', JStr ciphertext), (''_originalData'', JObj envelope),
                           (''_decryptionMethod'', get_prop envelope ''_decryptionMethod'')])
              \<and> effects (snd outcome) = effects st @ [sent]))"
proof -
  let ?out = "request lib hmac cfg True now net endpoint params st"
  let ?sent = "HttpRequest endpoint
                 (prepareSignedPayload hmac now params (JStr (apiKey cfg)) (apiSecret cfg))"
  have fail3: "(\<exists>e. makeHttpRequest lib cfg (net 2) = Inl e \<and> fst ?out = Inl e)
               \<and> effects (snd ?out) = effects st @ [?sent, Delay 1000, ?sent, Delay 2000, ?sent]"
    if r: "autoRetry cfg" and f: "\<forall>k < (3::nat). transport_failure (net k)"
  proof -
    obtain e0 where e0: "makeHttpRequest lib cfg (net 0) = Inl e0"
      using f makeHttpRequest_rejects[of "net 0" lib cfg] by auto
    obtain e1 where e1: "makeHttpRequest lib cfg (net 1) = Inl e1"
      using f makeHttpRequest_rejects[of "net 1" lib cfg] by auto
    obtain e2 where e2: "makeHttpRequest lib cfg (net 2) = Inl e2"
      using f makeHttpRequest_rejects[of "net 2" lib cfg] by auto
    show ?thesis using request_all_fail_retry[where net=net, OF r e0 e1 e2] e2 by simp
  qed
  have fail1: "(\<exists>e. makeHttpRequest lib cfg (net 0) = Inl e \<and> fst ?out = Inl e)
               \<and> effects (snd ?out) = effects st @ [?sent]"
    if r: "\<not> autoRetry cfg" and f: "transport_failure (net 0)"
  proof -
    obtain e0 where e0: "makeHttpRequest lib cfg (net 0) = Inl e0"
      using f makeHttpRequest_rejects[of "net 0" lib cfg] by auto
    show ?thesis using request_all_fail_single[where net=net, OF r e0] e0 by simp
  qed
  have ok: "(\<exists>response. makeHttpRequest lib cfg (net 0) = Inr response
                       \<and> fst ?out = Inr (JObj response))
          \<and> effects (snd ?out) = effects st @ [?sent]"
    if "\<not> transport_failure (net 0)"
  proof -
    have "\<exists>statusCode headers body. net 0 = NetResponse statusCode headers body"
      using that by (auto simp: transport_failure_def split: transport.splits)
    then obtain statusCode headers body where "net 0 = NetResponse statusCode headers body"
      by blast
    then obtain response where "makeHttpRequest lib cfg (net 0) = Inr response"
      using makeHttpRequest_resolves[of lib cfg statusCode headers body] by auto
    then show ?thesis using request_first_resolves[where net=net] by blast
  qed
  have undecrypted: "fst ?out =
                Inr (JObj [(''statusCode'', JNum statusCode), (''headers'', headers),
                           (''data'', JStr ciphertext), (''_originalData'', JObj envelope),
                           (''_decryptionMethod'', get_prop envelope ''_decryptionMethod'')])
              \<and> effects (snd ?out) = effects st @ [?sent]"
    if "net 0 = NetResponse statusCode headers body"
       "JSON_parse lib body = Inr (JObj envelope)"
       "get_prop envelope ''data'' = JStr ciphertext"
       "\<not> truthy (decryptRSAResponse lib ciphertext)"
       "\<not> truthy (decryptAESString lib ciphertext)"
    for statusCode headers body envelope ciphertext
    using request_first_resolves[where net=net and lib=lib and cfg=cfg] makeHttpRequest_undecrypted[OF that(2-5)] that(1)
    by simp
  have auth: "authenticated = True" using assms by simp
  have p1: "(\<forall>k < (if autoRetry cfg then 3 else 1 :: nat). transport_failure (net k)) \<longrightarrow>
          (\<exists>e. makeHttpRequest lib cfg (net ((if autoRetry cfg then 3 else 1 :: nat) - 1)) = Inl e
                \<and> fst ?out = Inl e)
          \<and> effects (snd ?out) =
              effects st @ (if autoRetry cfg then [?sent, Delay 1000, ?sent, Delay 2000, ?sent]
                            else [?sent])"
  proof (cases "autoRetry cfg")
    case True
    then show ?thesis using fail3 by simp
  next
    case False
    then show ?thesis using fail1 by simp
  qed
  have p3: "\<forall>statusCode headers body envelope ciphertext.
          net 0 = NetResponse statusCode headers body
          \<and> JSON_parse lib body = Inr (JObj envelope)
          \<and> get_prop envelope ''data'' = JStr ciphertext
          \<and> \<not> truthy (decryptRSAResponse lib ciphertext)
          \<and> \<not> truthy (decryptAESString lib ciphertext)
          \<longrightarrow> fst ?out =
                Inr (JObj [(''statusCode'', JNum statusCode), (''headers'', headers),
                           (''data'', JStr ciphertext), (''_originalData'', JObj envelope),
                           (''_decryptionMethod'', get_prop envelope ''_decryptionMethod'')])
              \<and> effects (snd ?out) = effects st @ [?sent]"
    using undecrypted by blast
  show ?thesis
    unfolding Let_def auth using p1 ok p3 by blast
qed

lemma toy_timeout_rejection:
  "makeHttpRequest toy_lib toy_config NetTimeout = Inl (Error ''Request timeout after 30000ms'')"
  by (simp add: makeHttpRequest_def toy_config_def int_to_string_def digit_char_def)

lemma toy_undecryptable:
  "JSON_parse toy_lib ''data:!!'' = Inr (JObj [(''data'', JStr ''!!'')])
 \<and> get_prop [(''data'', JStr ''!!'')] ''data'' = JStr ''!!''
 \<and> \<not> truthy (decryptRSAResponse toy_lib ''!!'')
 \<and> \<not> truthy (decryptAESString toy_lib ''!!'')"
  by code_simp

theorem request_retry_policy_witness:
  "fst (request toy_lib toy_hmac toy_config True 1700000000000 (\<lambda>k. NetTimeout)
          ''/api/wallet/overview'' [] new_client_state)
     = Inl (Error ''Request timeout after 30000ms'')
 \<and> effects (snd (request toy_lib toy_hmac toy_config True 1700000000000 (\<lambda>k. NetTimeout)
          ''/api/wallet/overview'' [] new_client_state))
     = [HttpRequest ''/api/wallet/overview''
          (prepareSignedPayload toy_hmac 1700000000000 [] (JStr ''key'') ''secret''),
        Delay 1000,
        HttpRequest ''/api/wallet/overview''
          (prepareSignedPayload toy_hmac 1700000000000 [] (JStr ''key'') ''secret''),
        Delay 2000,
        HttpRequest ''/api/wallet/overview''
          (prepareSignedPayload toy_hmac 1700000000000 [] (JStr ''key'') ''secret'')]
 \<and> fst (request toy_lib toy_hmac toy_config True 1700000000000 (\<lambda>k. NetResponse 200 JNull ''data:!!'')
          ''/api/wallet/overview'' [] new_client_state)
     = Inr (JObj [(''statusCode'', JNum 200), (''headers'', JNull), (''data'', JStr ''!!''),
                  (''_originalData'', JObj [(''data'', JStr ''!!'')]),
                  (''_decryptionMethod'', JUndefined)])
 \<and> effects (snd (request toy_lib toy_hmac toy_config True 1700000000000
          (\<lambda>k. NetResponse 200 JNull ''data:!!'') ''/api/wallet/overview'' [] new_client_state))
     = [HttpRequest ''/api/wallet/overview''
          (prepareSignedPayload toy_hmac 1700000000000 [] (JStr ''key'') ''secret'')]"
proof -
  have retry: "autoRetry toy_config = True" by (simp add: toy_config_def)
  have keys: "apiKey toy_config = ''key''" "apiSecret toy_config = ''secret''"
    by (simp_all add: toy_config_def)
  have start: "effects new_client_state = []" by (simp add: new_client_state_def)
  have all_fail: "\<forall>k < (3::nat). transport_failure ((\<lambda>k. NetTimeout) k)"
    by (simp add: transport_failure_def)
  have no_marker: "get_prop [(''data'', JStr ''!!'')] ''_decryptionMethod'' = JUndefined"
    by (simp add: get_prop_def)
  have first: "(\<lambda>k. NetResponse 200 JNull ''data:!!'') (0::nat) = NetResponse 200 JNull ''data:!!''"
    by simp
  note t1 = request_retry_policy[of True toy_config "''/api/wallet/overview''" toy_hmac
      1700000000000 "[]" toy_lib "\<lambda>k. NetTimeout" new_client_state, OF TrueI,
      unfolded Let_def retry if_True keys start append_Nil,
      THEN conjunct1, THEN mp, OF all_fail]
  note t2 = request_retry_policy[of True toy_config "''/api/wallet/overview''" toy_hmac
      1700000000000 "[]" toy_lib "\<lambda>k. NetResponse 200 JNull ''data:!!''" new_client_state,
      OF TrueI, unfolded Let_def retry if_True keys start append_Nil,
      THEN conjunct2, THEN conjunct2, rule_format,
      of 200 JNull "''data:!!''" "[(''data'', JStr ''!!'')]" "''!!''",
      OF conjI[OF first toy_undecryptable], unfolded no_marker]
  from t1 obtain e where e: "makeHttpRequest toy_lib toy_config NetTimeout = Inl e"
     and r: "fst (request toy_lib toy_hmac toy_config True 1700000000000 (\<lambda>k. NetTimeout)
          ''/api/wallet/overview'' [] new_client_state) = Inl e"
    by blast
  from e have "e = Error ''Request timeout after 30000ms''"
    by (simp only: toy_timeout_rejection sum.inject)
  with r have a: "fst (request toy_lib toy_hmac toy_config True 1700000000000 (\<lambda>k. NetTimeout)
          ''/api/wallet/overview'' [] new_client_state)
     = Inl (Error ''Request timeout after 30000ms'')"
    by (simp only:)
  show ?thesis using a t1[THEN conjunct2] t2 by (intro conjI) (rule a, blast, blast, blast)
qed

section \<open>Properties of the scheduler\<close>

lemma apply_writes_none: "apply_writes [] rs = rs"
  by (simp add: apply_writes_def)

lemma invoke_quiet:
  assumes "never_stopped sch env" "callbacks_return sch" "entries_untouched sch env"
  shows "invoke (onSuccess sch) k st = (None, st)" "invoke (onError sch) k st = (None, st)"
  using assms
  by (auto simp: invoke_def Let_def never_stopped_def callbacks_return_def
        entries_untouched_def apply_writes_none split: option.splits)

lemma attempt_quiet:
  assumes "never_stopped sch env" "callbacks_return sch" "entries_untouched sch env"
  shows "attempt sch env i st
           = (None, st\<lparr> results := results st @ [entry env i (length (results st))] \<rparr>)"
proof -
  have ns: "\<not> stop_while_executing env i" using assms(1) by (simp add: never_stopped_def)
  have nw: "writes_while_executing env i (results st) = []"
    using assms(3) by (simp add: entries_untouched_def)
  show ?thesis
  proof (cases "execute env i")
    case (Inl msg)
    then show ?thesis using ns nw
      by (simp add: attempt_def record_failure_def Let_def invoke_quiet[OF assms] entry_def
            apply_writes_none)
  next
    case (Inr v)
    then show ?thesis using ns nw
      by (simp add: attempt_def Let_def invoke_quiet[OF assms] entry_def apply_writes_none)
  qed
qed

lemma schedule_loop_quiet:
  "never_stopped sch env \<Longrightarrow> callbacks_return sch \<Longrightarrow> entries_untouched sch env \<Longrightarrow>
   isRunning st \<Longrightarrow>
         fst (schedule_loop sch env i st) = None
       \<and> results (snd (schedule_loop sch env i st))
           = results st @ map (\<lambda>j. entry env j (length (results st) + nat (j - i)))
                             [i..iterations sch]"
proof (induction sch env i st rule: schedule_loop.induct)
  case (1 sch env i st)
  have q: "never_stopped sch env" "callbacks_return sch" "entries_untouched sch env"
    using "1.prems" by simp_all
  have running: "isRunning st" using "1.prems" by simp
  show ?case
  proof (cases "i \<le> iterations sch")
    case False
    then show ?thesis by (subst schedule_loop.simps, subst schedule_loop.simps) simp
  next
    case True
    let ?st1 = "st\<lparr> currentIteration := i,
                    results := results st @ [entry env i (length (results st))] \<rparr>"
    define st2 where "st2 = (if i < iterations sch \<and> isRunning ?st1
               then ?st1\<lparr> waits := waits ?st1 @ [intervalMinutes sch * 60 * 1000],
                         results := apply_writes (writes_while_waiting env i (results ?st1))
                                      (results ?st1),
                         isRunning := isRunning ?st1 \<and> \<not> stop_while_waiting env i \<rparr>
               else ?st1)"
    have a: "attempt sch env i (st\<lparr> currentIteration := i \<rparr>) = (None, ?st1)"
      using attempt_quiet[OF q, of i "st\<lparr> currentIteration := i \<rparr>"] by simp
    have nw: "\<not> stop_while_waiting env i" using q(1) by (simp add: never_stopped_def)
    have ww: "writes_while_waiting env i rs = []" for rs
      using q(3) by (simp add: entries_untouched_def)
    have run2: "isRunning st2" using running nw by (simp add: st2_def)
    have res2: "results st2 = results st @ [entry env i (length (results st))]"
      by (simp add: st2_def ww apply_writes_none)
    have step: "schedule_loop sch env i st = schedule_loop sch env (i + 1) st2"
      using True running a by (subst schedule_loop.simps) (simp add: st2_def)
    have ih: "fst (schedule_loop sch env (i + 1) st2) = None
       \<and> results (snd (schedule_loop sch env (i + 1) st2))
           = results st2 @ map (\<lambda>j. entry env j (length (results st2) + nat (j - (i + 1))))
                             [i + 1..iterations sch]"
      using "1.IH"[OF _ _ refl q] run2 True running a by (simp add: st2_def)
    have idx: "map (\<lambda>j. entry env j (length (results st2) + nat (j - (i + 1)))) [i + 1..iterations sch]
             = map (\<lambda>j. entry env j (length (results st) + nat (j - i))) [i + 1..iterations sch]"
      by (rule map_cong) (auto simp: res2 nat_diff_distrib intro: arg_cong)
    have up: "[i..iterations sch] = i # [i + 1..iterations sch]"
      using True by (rule upto_rec1)
    have ih': "fst (schedule_loop sch env (i + 1) st2) = None
       \<and> results (snd (schedule_loop sch env (i + 1) st2))
           = results st @ entry env i (length (results st))
               # map (\<lambda>j. entry env j (length (results st) + nat (j - i))) [i + 1..iterations sch]"
      using ih idx res2 by simp
    show ?thesis
      using ih' by (simp add: step up)
  qed
qed

lemma scheduleExecutions_results:
  assumes "entries_untouched sch env"
  shows "results (scheduleExecutions sch env)
     = results (snd (schedule_loop sch env 1
          \<lparr> results = [], currentIteration = 0, isRunning = True, waits = [] \<rparr>))"
  using assms
  by (auto simp: scheduleExecutions_def Let_def entries_untouched_def
           split: prod.splits option.splits)

lemma iteration_entry: "iteration (entry env i n) = i"
  by (simp add: entry_def split: sum.splits)

lemma success_entry: "success (entry env i n) = (\<exists>v. execute env i = Inr v)"
  by (simp add: entry_def split: sum.splits)

lemma upto_1_3: "[1..3::int] = [1, 2, 3]"
  by (simp add: upto.simps)

lemma getExecutionStats_failed:
  "rs \<noteq> [] \<Longrightarrow>
   n_failed (getExecutionStats (Some rs))
     = int (length rs) - int (length (filter success rs))"
  by (simp add: getExecutionStats_def Let_def)

text \<open>
  C8. \<open>getExecutionStats\<close> of an empty results list, and of a missing one, is exactly
  \<open>{total: 0, successful: 0, failed: 0, successRate: 0, averageInterval: 0}\<close>, with no
  \<open>firstExecution\<close> and no \<open>lastExecution\<close>. The early return comes before any division,
  and the function, total on lists of entries, raises nothing.
\<close>

theorem getExecutionStats_empty:
  "getExecutionStats (Some []) =
     \<lparr> total = 0, n_successful = 0, n_failed = 0, successRate = 0, averageInterval = 0,
       firstExecution = None, lastExecution = None \<rparr>
 \<and> getExecutionStats None =
     \<lparr> total = 0, n_successful = 0, n_failed = 0, successRate = 0, averageInterval = 0,
       firstExecution = None, lastExecution = None \<rparr>"
  by (simp add: getExecutionStats_def)

text \<open>
  C7, as the specification states it, fails on the code in runs that nobody stops, with
  three iterations of which the second fails. An \<open>onError\<close> that throws takes the error
  past the inner \<open>catch\<close> block, so the loop ends after iteration 2 with two results. An
  \<open>onSuccess\<close> that throws does so inside the \<open>try\<close> block, so iterations 1 and 3 are
  recorded twice, as a success and as a failure. And an \<open>onSuccess\<close> that returns
  normally is handed the entry just pushed: with \<open>r => { r.success = false }\<close> the three
  results all read as failures, and \<open>getExecutionStats\<close> counts three.
\<close>

theorem schedule_callbacks_counterexample:
  "never_stopped (three_runs None (Some throwing_callback)) fails_on_second
 \<and> map iteration (results (scheduleExecutions (three_runs None (Some throwing_callback))
                             fails_on_second)) = [1, 2]
 \<and> never_stopped (three_runs (Some throwing_callback) None) fails_on_second
 \<and> map iteration (results (scheduleExecutions (three_runs (Some throwing_callback) None)
                             fails_on_second)) = [1, 1, 2, 3, 3]
 \<and> never_stopped (three_runs (Some marking_callback) None) fails_on_second
 \<and> callbacks_return (three_runs (Some marking_callback) None)
 \<and> map iteration (results (scheduleExecutions (three_runs (Some marking_callback) None)
                             fails_on_second)) = [1, 2, 3]
 \<and> map success (results (scheduleExecutions (three_runs (Some marking_callback) None)
                           fails_on_second)) = [False, False, False]
 \<and> n_failed (getExecutionStats (Some (results
       (scheduleExecutions (three_runs (Some marking_callback) None) fails_on_second)))) = 3"
proof -
  let ?marked = "results (scheduleExecutions (three_runs (Some marking_callback) None)
                            fails_on_second)"
  have a: "never_stopped (three_runs None (Some throwing_callback)) fails_on_second"
    by (simp add: never_stopped_def three_runs_def fails_on_second_def throwing_callback_def)
  have b: "never_stopped (three_runs (Some throwing_callback) None) fails_on_second"
    by (simp add: never_stopped_def three_runs_def fails_on_second_def throwing_callback_def)
  have c: "map iteration (results (scheduleExecutions (three_runs None (Some throwing_callback))
                             fails_on_second)) = [1, 2]"
    by code_simp
  have d: "map iteration (results (scheduleExecutions (three_runs (Some throwing_callback) None)
                             fails_on_second)) = [1, 1, 2, 3, 3]"
    by code_simp
  have e: "never_stopped (three_runs (Some marking_callback) None) fails_on_second"
    by (simp add: never_stopped_def three_runs_def fails_on_second_def marking_callback_def)
  have f: "callbacks_return (three_runs (Some marking_callback) None)"
    by (simp add: callbacks_return_def three_runs_def marking_callback_def)
  have g: "map iteration ?marked = [1, 2, 3]"
    by code_simp
  have h: "map success ?marked = [False, False, False]"
    by code_simp
  have "length (map success ?marked) = 3 \<and> filter id (map success ?marked) = []"
    by (simp only: h) simp
  then have "length ?marked = 3 \<and> filter success ?marked = []"
    by (simp add: filter_map comp_def)
  then have i: "n_failed (getExecutionStats (Some ?marked)) = 3"
    by (simp add: getExecutionStats_def Let_def)
  show ?thesis using a b c d e f g h i by blast
qed

text \<open>
  C7, amended. For every schedule run that nobody stops, in which the \<open>onSuccess\<close> and
  \<open>onError\<close> callbacks return normally, and in which the loop alone writes the recorded
  entries and the results array (the callbacks and the holder of the handle, who are
  handed these very objects, do not modify them), a failed iteration does not abort the
  loop: the results list ends as exactly one entry for each of the iterations
  \<open>1..iterations\<close>, in order, a success or a failure according to what the remote call
  did. In particular a schedule with \<open>iterations = 3\<close>, \<open>intervalMinutes = 0\<close> whose
  remote call fails only on iteration 2 ends with three results, and \<open>getExecutionStats\<close>
  counts one failure.
\<close>

theorem schedule_records_every_iteration:
  assumes "never_stopped sch env" and "callbacks_return sch" and "entries_untouched sch env"
  shows "results (scheduleExecutions sch env)
           = map (\<lambda>i. entry env i (nat (i - 1))) [1..iterations sch]
       \<and> map iteration (results (scheduleExecutions sch env)) = [1..iterations sch]
       \<and> length (results (scheduleExecutions sch env)) = nat (iterations sch)
       \<and> (iterations sch = 3 \<and> intervalMinutes sch = 0
            \<and> (\<forall>i. (\<exists>m. execute env i = Inl m) \<longleftrightarrow> i = 2)
          \<longrightarrow> length (results (scheduleExecutions sch env)) = 3
              \<and> n_failed (getExecutionStats (Some (results (scheduleExecutions sch env)))) = 1)"
proof -
  let ?rs = "results (scheduleExecutions sch env)"
  have rs: "?rs = map (\<lambda>i. entry env i (nat (i - 1))) [1..iterations sch]"
    using schedule_loop_quiet[OF assms, of
            "\<lparr> results = [], currentIteration = 0, isRunning = True, waits = [] \<rparr>" 1]
    by (simp add: scheduleExecutions_results[OF assms(3)])
  have its: "map iteration ?rs = [1..iterations sch]"
    by (simp add: rs iteration_entry comp_def)
  have len: "length ?rs = nat (iterations sch)"
    by (simp add: rs)
  have scenario: "length ?rs = 3 \<and> n_failed (getExecutionStats (Some ?rs)) = 1"
    if three: "iterations sch = 3" and fails: "\<forall>i. (\<exists>m. execute env i = Inl m) \<longleftrightarrow> i = 2"
  proof -
    have ok: "(\<exists>v. execute env i = Inr v) \<longleftrightarrow> i \<noteq> 2" for i
    proof (cases "execute env i")
      case (Inl m)
      then show ?thesis using fails by auto
    next
      case (Inr v)
      then have "\<not> (\<exists>m. execute env i = Inl m)" by simp
      then show ?thesis using fails Inr by blast
    qed
    have "?rs = [entry env 1 0, entry env 2 1, entry env 3 2]"
      by (simp add: rs three upto_1_3)
    then show ?thesis
      by (simp add: getExecutionStats_failed success_entry ok)
  qed
  show ?thesis using rs its len scenario by blast
qed

lemma quiet_run:
  "never_stopped (three_runs (Some quiet_callback) (Some quiet_callback)) fails_on_second
 \<and> callbacks_return (three_runs (Some quiet_callback) (Some quiet_callback))
 \<and> entries_untouched (three_runs (Some quiet_callback) (Some quiet_callback)) fails_on_second"
  by (simp add: never_stopped_def callbacks_return_def entries_untouched_def three_runs_def
        fails_on_second_def quiet_callback_def)

lemma quiet_run_scenario:
  "iterations (three_runs (Some quiet_callback) (Some quiet_callback)) = 3
 \<and> intervalMinutes (three_runs (Some quiet_callback) (Some quiet_callback)) = 0
 \<and> (\<forall>i. (\<exists>m. execute fails_on_second i = Inl m) \<longleftrightarrow> i = 2)"
  by (simp add: three_runs_def fails_on_second_def)

theorem schedule_records_every_iteration_witness:
  "length (results (scheduleExecutions (three_runs (Some quiet_callback) (Some quiet_callback))
                      fails_on_second)) = 3
 \<and> n_failed (getExecutionStats (Some (results
       (scheduleExecutions (three_runs (Some quiet_callback) (Some quiet_callback))
          fails_on_second)))) = 1
 \<and> map iteration (results (scheduleExecutions (three_runs (Some quiet_callback) (Some quiet_callback))
                      fails_on_second)) = [1, 2, 3]"
proof -
  note t = schedule_records_every_iteration[OF quiet_run[THEN conjunct1]
             quiet_run[THEN conjunct2, THEN conjunct1] quiet_run[THEN conjunct2, THEN conjunct2]]
  have three: "iterations (three_runs (Some quiet_callback) (Some quiet_callback)) = 3"
    by (simp add: three_runs_def)
  from t[THEN conjunct2, THEN conjunct2, THEN conjunct2, THEN mp, OF quiet_run_scenario]
       t[THEN conjunct2, THEN conjunct1]
  show ?thesis by (simp add: three upto_1_3)
qed

section \<open>The round trip of the signer\<close>

lemma strip_fold_filter:
  "distinct (map fst q) \<Longrightarrow>
   fold (\<lambda>key p. if is_stripped (get_prop p key) then delete_prop p key else p) ks q =
   filter (\<lambda>kv. fst kv \<in> set ks \<longrightarrow> \<not> is_stripped (snd kv)) q"
proof (induction ks arbitrary: q)
  case Nil
  then show ?case by simp
next
  case (Cons k ks)
  let ?q' = "if is_stripped (get_prop q k) then delete_prop q k else q"
  have d': "distinct (map fst ?q')"
    using Cons.prems by (simp add: delete_prop_def distinct_map_filter)
  have "filter (\<lambda>kv. fst kv \<in> set ks \<longrightarrow> \<not> is_stripped (snd kv)) ?q' =
        filter (\<lambda>kv. fst kv \<in> set (k # ks) \<longrightarrow> \<not> is_stripped (snd kv)) q"
  proof (cases "is_stripped (get_prop q k)")
    case True
    have "\<And>kv. kv \<in> set q \<Longrightarrow> fst kv = k \<Longrightarrow> is_stripped (snd kv)"
      using True get_prop_distinct[OF Cons.prems] by (metis prod.collapse)
    then show ?thesis using True
      by (auto simp: delete_prop_def intro!: filter_cong)
  next
    case False
    have "\<And>kv. kv \<in> set q \<Longrightarrow> fst kv = k \<Longrightarrow> \<not> is_stripped (snd kv)"
      using False get_prop_distinct[OF Cons.prems] by (metis prod.collapse)
    then show ?thesis using False
      by (auto intro!: filter_cong)
  qed
  then show ?case using Cons.IH[OF d'] by simp
qed

lemma strip_all:
  "distinct (map fst q) \<Longrightarrow>
   fold (\<lambda>key p. if is_stripped (get_prop p key) then delete_prop p key else p) (Object_keys q) q =
   filter (\<lambda>kv. \<not> is_stripped (snd kv)) q"
  by (auto simp: strip_fold_filter Object_keys_def intro!: filter_cong)

lemma prepareSignedPayload_unsigned:
  assumes "distinct (map fst customParams)"
  shows "prepareSignedPayload hmac now customParams key secret =
         set_prop (unsigned_payload now customParams key) ''sign''
           (JStr (calculateSignature hmac (unsigned_payload now customParams key) secret))"
  using assms
  by (simp add: prepareSignedPayload_def unsigned_payload_def Let_def strip_all distinct_set_prop)

lemma unsigned_payload_distinct:
  "distinct (map fst customParams) \<Longrightarrow> distinct (map fst (unsigned_payload now customParams key))"
  by (simp add: unsigned_payload_def Let_def distinct_set_prop distinct_map_filter)

lemma unsigned_payload_nothing_stripped:
  "(k, v) \<in> set (unsigned_payload now customParams key) \<Longrightarrow> \<not> is_stripped v"
  by (auto simp: unsigned_payload_def Let_def split: if_splits)

lemma unsigned_payload_no_sign:
  assumes "distinct (map fst customParams)" "is_stripped (get_prop customParams ''sign'')"
  shows "''sign'' \<notin> fst ` set (unsigned_payload now customParams key)"
proof
  assume "''sign'' \<in> fst ` set (unsigned_payload now customParams key)"
  then obtain v where v: "(''sign'', v) \<in> set (unsigned_payload now customParams key)" by force
  define p2 where "p2 = (let payload1 = (if \<not> truthy (get_prop customParams ''timestamp'')
                      then set_prop customParams ''timestamp'' (JNum now) else customParams)
       in (if \<not> truthy (get_prop payload1 ''apiKey'')
                      then set_prop payload1 ''apiKey'' key else payload1))"
  have d: "distinct (map fst p2)" using assms(1) by (simp add: p2_def Let_def distinct_set_prop)
  have g: "get_prop p2 ''sign'' = get_prop customParams ''sign''"
    by (simp add: p2_def Let_def get_prop_set_prop)
  have "(''sign'', v) \<in> set (filter (\<lambda>kv. \<not> is_stripped (snd kv)) p2)"
    using v by (simp add: unsigned_payload_def p2_def Let_def)
  then have "get_prop p2 ''sign'' = v" "\<not> is_stripped v"
    using d by (auto simp: get_prop_def)
  then show False using g assms(2) by simp
qed

lemma verify_prepare_without_sign:
  assumes "distinct (map fst customParams)" "is_stripped (get_prop customParams ''sign'')"
      and "\<And>m. hmac secret m \<noteq> []"
  shows "verifySignature hmac (prepareSignedPayload hmac now customParams key secret) secret"
    and "prepareSignedPayload hmac now customParams key secret
           = unsigned_payload now customParams key
               @ [(''sign'', JStr (hmac secret (canonical_string (unsigned_payload now customParams key))))]"
proof -
  note ns = unsigned_payload_no_sign[OF assms(1,2), of now key]
  show "verifySignature hmac (prepareSignedPayload hmac now customParams key secret) secret"
    using assms ns
    by (simp add: prepareSignedPayload_unsigned verifySignature_def get_prop_set_prop
          delete_prop_set_prop delete_prop_absent calculateSignature_eq_canonical Let_def)
  have "set_prop obj ''sign'' v = obj @ [(''sign'', v)]" if "''sign'' \<notin> fst ` set obj" for obj v
    using that by (induction obj) auto
  then show "prepareSignedPayload hmac now customParams key secret
           = unsigned_payload now customParams key
               @ [(''sign'', JStr (hmac secret (canonical_string (unsigned_payload now customParams key))))]"
    using ns assms(1) by (simp add: prepareSignedPayload_unsigned calculateSignature_eq_canonical)
qed

lemma stale_sort: "sort [''sign'', ''timestamp'', ''apiKey''] = [''apiKey'', ''sign'', ''timestamp'']"
  by code_simp

lemma fresh_sort: "sort [''timestamp'', ''apiKey''] = [''apiKey'', ''timestamp'']"
  by code_simp

lemma stale_unsigned:
  "unsigned_payload 1700000000000 [(''sign'', JStr ''stale'')] (JStr ''key'')
     = [(''sign'', JStr ''stale''), (''timestamp'', JNum 1700000000000), (''apiKey'', JStr ''key'')]"
  by (simp add: unsigned_payload_def get_prop_def is_stripped_def Let_def)

lemma stale_canonical:
  "canonical_string [(''sign'', JStr ''stale''), (''timestamp'', JNum 1700000000000), (''apiKey'', JStr ''key'')]
     = ''apiKey=key&sign=stale&timestamp=1700000000000''"
  by (simp add: canonical_string_def stale_sort get_prop_def int_to_string_def digit_char_def)

lemma fresh_canonical:
  "canonical_string [(''timestamp'', JNum 1700000000000), (''apiKey'', JStr ''key'')]
     = ''apiKey=key&timestamp=1700000000000''"
  by (simp add: canonical_string_def fresh_sort get_prop_def int_to_string_def digit_char_def)

text \<open>
  C2. When the caller's map itself has a property \<open>sign\<close> with a value that is not
  stripped, \<open>prepareSignedPayload\<close> does not remove it before signing (as
  \<open>verifySignature\<close> does before recomputing): the stale value enters the canonical string
  as \<open>sign=stale\<close> and is then overwritten by the new signature. \<open>verifySignature\<close> on the
  result compares that signature with the digest of the string without \<open>sign\<close>, so it
  returns true only if the digest function maps the two different strings to the same
  non-empty digest; with the stand-in digest it returns false. (For maps without such a
  property the round trip holds: \<open>verify_prepare_without_sign\<close>.)
\<close>

theorem prepareSignedPayload_signs_stale_sign:
  "prepareSignedPayload hmac 1700000000000 [(''sign'', JStr ''stale'')] (JStr ''key'') ''secret''
     = [(''sign'', JStr (hmac ''secret'' ''apiKey=key&sign=stale&timestamp=1700000000000'')),
        (''timestamp'', JNum 1700000000000), (''apiKey'', JStr ''key'')]
 \<and> verifySignature hmac
       (prepareSignedPayload hmac 1700000000000 [(''sign'', JStr ''stale'')] (JStr ''key'') ''secret'')
       ''secret''
     = (hmac ''secret'' ''apiKey=key&sign=stale&timestamp=1700000000000'' \<noteq> []
        \<and> hmac ''secret'' ''apiKey=key&sign=stale&timestamp=1700000000000''
            = hmac ''secret'' ''apiKey=key&timestamp=1700000000000'')
 \<and> \<not> verifySignature toy_hmac
       (prepareSignedPayload toy_hmac 1700000000000 [(''sign'', JStr ''stale'')] (JStr ''key'') ''secret'')
       ''secret''"
proof -
  have d: "distinct (map fst [(''sign'', JStr ''stale'')])" by simp
  have p: "prepareSignedPayload h 1700000000000 [(''sign'', JStr ''stale'')] (JStr ''key'') ''secret''
     = [(''sign'', JStr (h ''secret'' ''apiKey=key&sign=stale&timestamp=1700000000000'')),
        (''timestamp'', JNum 1700000000000), (''apiKey'', JStr ''key'')]" for h
    by (simp add: prepareSignedPayload_unsigned[OF d] stale_unsigned
          calculateSignature_eq_canonical stale_canonical)
  have v: "verifySignature h
       (prepareSignedPayload h 1700000000000 [(''sign'', JStr ''stale'')] (JStr ''key'') ''secret'')
       ''secret''
     = (h ''secret'' ''apiKey=key&sign=stale&timestamp=1700000000000'' \<noteq> []
        \<and> h ''secret'' ''apiKey=key&sign=stale&timestamp=1700000000000''
            = h ''secret'' ''apiKey=key&timestamp=1700000000000'')" for h
    by (simp add: p verifySignature_def get_prop_def delete_prop_def Let_def
          calculateSignature_eq_canonical fresh_canonical)
  have "\<not> verifySignature toy_hmac
       (prepareSignedPayload toy_hmac 1700000000000 [(''sign'', JStr ''stale'')] (JStr ''key'') ''secret'')
       ''secret''"
    by (simp add: v toy_hmac_def)
  then show ?thesis using p v by blast
qed

section \<open>Properties of the read accessors\<close>

lemma mutate_frame: "r \<noteq> a \<Longrightarrow> cells (mutate a contents h) r = cells h r"
  unfolding mutate_def
  by (induction contents arbitrary: h) (simp_all add: heap_write_def)

lemma mutate_next: "next_addr (mutate a contents h) = next_addr h"
  unfolding mutate_def
  by (induction contents arbitrary: h) (simp_all add: heap_write_def)

text \<open>
  C10. \<open>getStats\<close> returns a new object holding the properties of \<open>this.stats\<close>, and the
  handle's \<open>getResults\<close> a new array holding the elements of \<open>results\<close>. For a client
  and a scheduler whose objects are in the store, the returned reference differs from the
  internal one; however the caller then changes the returned object (any sequence of new
  contents), every object that existed before the call is unchanged, so the client's
  statistics and the scheduler's results read as before, and a later \<open>getStats\<close> or
  \<open>getResults\<close> returns the same contents as the first.
\<close>

theorem accessors_return_copies:
  assumes "stats_ref c < next_addr h" and "results_ref s < next_addr h"
  shows "(let (a, h1) = getStats_copy c h; h2 = mutate a contents h1 in
            a \<noteq> stats_ref c
          \<and> properties_at h1 a = properties_at h (stats_ref c)
          \<and> (\<forall>r < next_addr h. cells h2 r = cells h r)
          \<and> properties_at h2 (stats_ref c) = properties_at h (stats_ref c)
          \<and> (let (a', h3) = getStats_copy c h2 in
                properties_at h3 a' = properties_at h (stats_ref c)))
       \<and> (let (b, h1) = getResults s h; h2 = mutate b contents h1 in
            b \<noteq> results_ref s
          \<and> elements_at h1 b = elements_at h (results_ref s)
          \<and> (\<forall>r < next_addr h. cells h2 r = cells h r)
          \<and> elements_at h2 (results_ref s) = elements_at h (results_ref s)
          \<and> (let (b', h3) = getResults s h2 in
                elements_at h3 b' = elements_at h (results_ref s)))"
proof -
  have frame: "cells (mutate (next_addr h) contents (snd (alloc obj h))) r = cells h r"
    if "r < next_addr h" for r obj
    using that by (simp add: mutate_frame alloc_def)
  have next2: "next_addr (mutate (next_addr h) contents (snd (alloc obj h))) = next_addr h + 1" for obj
    by (simp add: mutate_next alloc_def)
  have stats_same: "properties_at (mutate (next_addr h) contents (snd (alloc obj h))) (stats_ref c)
                      = properties_at h (stats_ref c)" for obj
    using frame[OF assms(1)] by (simp add: properties_at_def)
  have results_same: "elements_at (mutate (next_addr h) contents (snd (alloc obj h))) (results_ref s)
                      = elements_at h (results_ref s)" for obj
    using frame[OF assms(2)] by (simp add: elements_at_def)
  show ?thesis
    using assms frame stats_same results_same
    by (simp add: getStats_copy_def getResults_def Let_def alloc_def split_def
          properties_at_def elements_at_def)
qed

lemma demo_refs:
  "stats_ref demo_client = 0" "results_ref demo_scheduler = 1" "next_addr demo_heap = 3"
  by (simp_all add: demo_client_def demo_scheduler_def demo_heap_def new_client_def
        new_scheduler_def push_result_def alloc_def heap_write_def empty_heap_def)

lemma demo_contents:
  "properties_at demo_heap (stats_ref demo_client) =
     [(''requests'', Prim (JNum 0)), (''successful'', Prim (JNum 0)),
      (''failed'', Prim (JNum 0)), (''encrypted'', Prim (JNum 0))]"
  "elements_at demo_heap (results_ref demo_scheduler) = [Ref 2]"
  by (simp_all add: demo_client_def demo_scheduler_def demo_heap_def new_client_def
        new_scheduler_def push_result_def alloc_def heap_write_def empty_heap_def
        properties_at_def elements_at_def)

theorem accessors_return_copies_witness:
  "stats_ref demo_client < next_addr demo_heap
 \<and> results_ref demo_scheduler < next_addr demo_heap
 \<and> properties_at
       (mutate (fst (getStats_copy demo_client demo_heap))
          [HObject [(''requests'', Prim (JNum 99))], HObject []]
          (snd (getStats_copy demo_client demo_heap)))
       (stats_ref demo_client)
     = [(''requests'', Prim (JNum 0)), (''successful'', Prim (JNum 0)),
        (''failed'', Prim (JNum 0)), (''encrypted'', Prim (JNum 0))]
 \<and> elements_at
       (mutate (fst (getResults demo_scheduler demo_heap))
          [HArray [], HArray [Prim (JStr ''x'')]]
          (snd (getResults demo_scheduler demo_heap)))
       (results_ref demo_scheduler)
     = [Ref 2]"
proof -
  have p1: "stats_ref demo_client < next_addr demo_heap" by (simp add: demo_refs)
  have p2: "results_ref demo_scheduler < next_addr demo_heap" by (simp add: demo_refs)
  note t1 = accessors_return_copies[OF p1 p2,
      of "[HObject [(''requests'', Prim (JNum 99))], HObject []]",
      unfolded Let_def split_def, THEN conjunct1]
  note t2 = accessors_return_copies[OF p1 p2,
      of "[HArray [], HArray [Prim (JStr ''x'')]]",
      unfolded Let_def split_def, THEN conjunct2]
  have a: "properties_at
       (mutate (fst (getStats_copy demo_client demo_heap))
          [HObject [(''requests'', Prim (JNum 99))], HObject []]
          (snd (getStats_copy demo_client demo_heap)))
       (stats_ref demo_client) = properties_at demo_heap (stats_ref demo_client)"
    using t1 by blast
  have b: "elements_at
       (mutate (fst (getResults demo_scheduler demo_heap))
          [HArray [], HArray [Prim (JStr ''x'')]]
          (snd (getResults demo_scheduler demo_heap)))
       (results_ref demo_scheduler) = elements_at demo_heap (results_ref demo_scheduler)"
    using t2 by blast
  show ?thesis using p1 p2 a b by (simp only: demo_contents simp_thms)
qed

end
